theory Spec2Isabelle
  imports Main
begin

section \<open>S3archiver: a shallow embedding of main.go\<close>

text \<open>
  Go strings are byte sequences and are modelled as \<open>string\<close>. The constant
  \<open>os.PathSeparator\<close> depends on the platform the program is built for, so every function
  that reads it takes the separator as its first argument \<open>sep\<close>; on Unix it is
  \<open>CHR ''/''\<close>.
\<close>

subsection \<open>Library functions of package strings\<close>

definition HasPrefix :: "string \<Rightarrow> string \<Rightarrow> bool" where
  "HasPrefix s pre = (length pre \<le> length s \<and> take (length pre) s = pre)"

definition TrimPrefix :: "string \<Rightarrow> string \<Rightarrow> string" where
  "TrimPrefix s pre = (if HasPrefix s pre then drop (length pre) s else s)"

text \<open>
  \<open>strings.ReplaceAll\<close> replaces the non-overlapping occurrences of \<open>old\<close> from left to
  right. The program only calls it with a one-byte \<open>old\<close>; for an empty \<open>old\<close> (where Go
  inserts \<open>new\<close> around every rune) the model leaves the string as it is.
\<close>

function ReplaceAll :: "string \<Rightarrow> string \<Rightarrow> string \<Rightarrow> string" where
  "ReplaceAll [] old new = []"
| "ReplaceAll (c # cs) old new =
     (if old \<noteq> [] \<and> HasPrefix (c # cs) old
      then new @ ReplaceAll (drop (length old) (c # cs)) old new
      else c # ReplaceAll cs old new)"
  by pat_completeness auto
termination
  by (relation "measure (\<lambda>(s, old, new). length s)") auto

fun strings_Join :: "string list \<Rightarrow> string \<Rightarrow> string" where
  "strings_Join [] s = []"
| "strings_Join [e] s = e"
| "strings_Join (e # es) s = e @ s @ strings_Join es s"

subsection \<open>Library functions of package path/filepath (single-separator platforms)\<close>

text \<open>
  \<open>filepath.Clean\<close> as on the platforms without volume names: \<open>out\<close> is the output
  buffer, \<open>dotdot\<close> the index where a \<open>..\<close> element must stop backtracking.
\<close>

fun backtrack :: "char \<Rightarrow> nat \<Rightarrow> string \<Rightarrow> nat \<Rightarrow> nat" where
  "backtrack sep dotdot out 0 = 0"
| "backtrack sep dotdot out (Suc w) =
     (if Suc w > dotdot \<and> out ! Suc w \<noteq> sep then backtrack sep dotdot out w else Suc w)"

function clean_loop :: "char \<Rightarrow> bool \<Rightarrow> string \<Rightarrow> string \<Rightarrow> nat \<Rightarrow> string" where
  "clean_loop sep rooted [] out dotdot = out"
| "clean_loop sep rooted (c # cs) out dotdot =
     (if c = sep then clean_loop sep rooted cs out dotdot
      else if c = CHR ''.'' \<and> (cs = [] \<or> hd cs = sep) then clean_loop sep rooted cs out dotdot
      else if c = CHR ''.'' \<and> hd cs = CHR ''.'' \<and> (tl cs = [] \<or> hd (tl cs) = sep) then
        (if length out > dotdot
         then clean_loop sep rooted (tl cs)
                (take (backtrack sep dotdot out (length out - 1)) out) dotdot
         else if \<not> rooted
         then (let out' = (if length out > 0 then out @ [sep] else out) @ ''..''
               in clean_loop sep rooted (tl cs) out' (length out'))
         else clean_loop sep rooted (tl cs) out dotdot)
      else
        (let out' = (if rooted \<and> length out \<noteq> 1 \<or> \<not> rooted \<and> length out \<noteq> 0
                     then out @ [sep] else out)
         in clean_loop sep rooted (dropWhile (\<lambda>x. x \<noteq> sep) (c # cs))
              (out' @ takeWhile (\<lambda>x. x \<noteq> sep) (c # cs)) dotdot))"
  by pat_completeness auto
termination
proof (relation "measure (\<lambda>(sep, rooted, p, out, dotdot). length p)")
  show "wf (measure (\<lambda>(sep, rooted, p, out, dotdot). length p))" by simp
next
  fix sep :: char and rooted :: bool and c :: char and cs out :: string
    and dotdot :: nat and x :: string
  assume "c \<noteq> sep"
  then have "length (dropWhile (\<lambda>x. x \<noteq> sep) (c # cs)) \<le> length cs"
    by (simp add: length_dropWhile_le)
  then show "((sep, rooted, dropWhile (\<lambda>x. x \<noteq> sep) (c # cs),
               x @ takeWhile (\<lambda>x. x \<noteq> sep) (c # cs), dotdot),
              (sep, rooted, c # cs, out, dotdot))
             \<in> measure (\<lambda>(sep, rooted, p, out, dotdot). length p)"
    by simp
qed (auto simp: less_Suc_eq_le intro: le_trans [OF length_tl [THEN eq_refl]])

definition Clean :: "char \<Rightarrow> string \<Rightarrow> string" where
  "Clean sep path =
     (if path = [] then ''.''
      else let rooted = (hd path = sep);
               out = (if rooted then clean_loop sep rooted (tl path) [sep] 1
                      else clean_loop sep rooted path [] 0)
           in if out = [] then ''.'' else out)"

text \<open>\<open>filepath.Join\<close>: the elements from the first non-empty one on, joined and cleaned.\<close>

definition Join :: "char \<Rightarrow> string list \<Rightarrow> string" where
  "Join sep elem =
     (case dropWhile (\<lambda>e. e = []) elem of
        [] \<Rightarrow> []
      | es \<Rightarrow> Clean sep (strings_Join es [sep]))"

subsection \<open>The default manifest path\<close>

definition GenerateArchiveFilePath :: "char \<Rightarrow> string \<Rightarrow> string \<Rightarrow> string" where
  "GenerateArchiveFilePath sep archiveDir localDir =
     (let baseName = ReplaceAll localDir [sep] ''_'';
          baseName = ReplaceAll baseName '':'' ''-''
      in Join sep [archiveDir, baseName @ ''.json''])"

subsection \<open>The remote key of a walked path\<close>

definition s3KeyOf :: "char \<Rightarrow> string \<Rightarrow> string \<Rightarrow> string" where
  "s3KeyOf sep localDirectory path =
     (let relativePath = TrimPrefix path localDirectory;
          relativePath = TrimPrefix relativePath [sep]
      in ReplaceAll relativePath [sep] ''/'')"

subsection \<open>Errors\<close>

text \<open>
  Go errors as values. \<open>ErrNotExist\<close> stands for the path errors that \<open>os.IsNotExist\<close>
  accepts; \<open>OpenFailed\<close> and \<open>UploadFailed\<close> are the two \<open>fmt.Errorf\<close> wrappers of
  \<open>UploadFile\<close>. The sentinel \<open>filepath.SkipDir\<close> is not a value of this type: the walk
  callback only returns errors of the operating system or of \<open>UploadFile\<close>, so the branches
  of \<open>filepath.Walk\<close> that compare with it are never taken. \<open>NilDereference\<close> is the panic
  of a callback that reads a nil \<open>FileInfo\<close>; \<open>filepath.Walk\<close> passes nil only together
  with an error.
\<close>

datatype error =
    ErrNotExist
  | ErrPermission
  | ErrOther string
  | SyntaxError
  | UnmarshalTypeError
  | BackendError string
  | OpenFailed string error
  | UploadFailed string error
  | NilDereference

definition IsNotExist :: "error \<Rightarrow> bool" where
  "IsNotExist e = (e = ErrNotExist)"

subsection \<open>The manifest and its JSON encoding\<close>

text \<open>
  A Go slice of strings is \<open>None\<close> when it is nil and \<open>Some xs\<close> otherwise; ranging over
  it and appending to it only read its elements.
\<close>

record ArchivedFiles =
  Files :: "string list option"

definition elems :: "string list option \<Rightarrow> string list" where
  "elems s = (case s of None \<Rightarrow> [] | Some xs \<Rightarrow> xs)"

definition append_slice :: "string list option \<Rightarrow> string \<Rightarrow> string list option" where
  "append_slice s x = Some (elems s @ [x])"

text \<open>
  \<open>encoding/json\<close> coerces every string it reads or writes to valid UTF-8: a byte that
  does not start a well-formed sequence (\<open>utf8.DecodeRune\<close> answers \<open>RuneError\<close> with size
  1) becomes U+FFFD, bytes EF BF BD. \<open>runeLen\<close> is the size of the well-formed multi-byte
  sequence at the head of a string, 0 when there is none.
\<close>

definition byte :: "char \<Rightarrow> nat" where
  "byte c = of_char c"

definition cont :: "char \<Rightarrow> bool" where
  "cont c = (128 \<le> byte c \<and> byte c \<le> 191)"

definition second3 :: "nat \<Rightarrow> nat \<Rightarrow> bool" where
  "second3 x y =
     (if x = 224 then 160 \<le> y \<and> y \<le> 191
      else if x = 237 then 128 \<le> y \<and> y \<le> 159
      else 128 \<le> y \<and> y \<le> 191)"

definition second4 :: "nat \<Rightarrow> nat \<Rightarrow> bool" where
  "second4 x y =
     (if x = 240 then 144 \<le> y \<and> y \<le> 191
      else if x = 244 then 128 \<le> y \<and> y \<le> 143
      else 128 \<le> y \<and> y \<le> 191)"

fun runeLen :: "string \<Rightarrow> nat" where
  "runeLen [] = 0"
| "runeLen (a # s) =
     (let x = byte a
      in if 194 \<le> x \<and> x \<le> 223
         then (case s of b # _ \<Rightarrow> if cont b then 2 else 0 | _ \<Rightarrow> 0)
         else if 224 \<le> x \<and> x \<le> 239
         then (case s of
                 b # c # _ \<Rightarrow> if second3 x (byte b) \<and> cont c then 3 else 0
               | _ \<Rightarrow> 0)
         else if 240 \<le> x \<and> x \<le> 244
         then (case s of
                 b # c # d # _ \<Rightarrow> if second4 x (byte b) \<and> cont c \<and> cont d then 4 else 0
               | _ \<Rightarrow> 0)
         else 0)"

definition replacement :: string where
  "replacement = [CHR 0xEF, CHR 0xBF, CHR 0xBD]"

function toValidUTF8 :: "string \<Rightarrow> string" where
  "toValidUTF8 [] = []"
| "toValidUTF8 (a # s) =
     (if byte a < 128 then a # toValidUTF8 s
      else if runeLen (a # s) = 0 then replacement @ toValidUTF8 s
      else take (runeLen (a # s)) (a # s) @ toValidUTF8 (drop (runeLen (a # s)) (a # s)))"
  by pat_completeness auto
termination
  by (relation "measure length") auto

text \<open>
  The bytes of a file are represented by what the scanner of \<open>encoding/json\<close> makes of
  them: either they are not a JSON text, or they denote a JSON value. A string inside a
  value holds the bytes of the literal with its escapes resolved; the scanner accepts any
  bytes there, and decoding coerces them to valid UTF-8.
\<close>

datatype json =
    JNull
  | JBool bool
  | JNumber string
  | JString string
  | JArray "json list"
  | JObject "(string \<times> json) list"

datatype filedata = NotJSON | JSONText json

text \<open>
  \<open>json.Unmarshal\<close> matches an object key with the field tag \<open>files\<close> exactly or under
  case folding; besides the ASCII letters only U+017F (bytes C5 BF) folds to a letter of
  the tag. A key that matches consists of such letters only, so it is valid UTF-8 and the
  coercion leaves it as it is.
\<close>

definition upper :: "char \<Rightarrow> char" where
  "upper c = (let n = (of_char c :: nat) in if 97 \<le> n \<and> n \<le> 122 then char_of (n - 32) else c)"

fun foldName :: "string \<Rightarrow> string" where
  "foldName [] = []"
| "foldName [a] = [upper a]"
| "foldName (a # b # cs) =
     (if a = CHR 0xC5 \<and> b = CHR 0xBF then CHR ''S'' # foldName cs
      else upper a # foldName (b # cs))"

definition matchesFiles :: "string \<Rightarrow> bool" where
  "matchesFiles key = (foldName key = ''FILES'')"

text \<open>
  Decoding into an element of type string: a JSON string is stored, coerced to valid
  UTF-8; null leaves the element as it is; anything else is a type error (\<open>None\<close>).
\<close>

fun decode_string :: "string \<Rightarrow> json \<Rightarrow> string option" where
  "decode_string old (JString s) = Some (toValidUTF8 s)"
| "decode_string old JNull = Some old"
| "decode_string old _ = None"

text \<open>
  Decoding a non-empty array reuses the slice's backing array: element \<open>i\<close> is decoded
  into whatever the array holds at \<open>i\<close> (the empty string beyond what was ever written).
\<close>

fun decode_array :: "string list \<Rightarrow> json list \<Rightarrow> string list option" where
  "decode_array backing [] = Some []"
| "decode_array backing (j # js) =
     (case decode_string (case backing of [] \<Rightarrow> [] | b # _ \<Rightarrow> b) j of
        None \<Rightarrow> None
      | Some s \<Rightarrow>
          (case decode_array (tl backing) js of
             None \<Rightarrow> None
           | Some ss \<Rightarrow> Some (s # ss)))"

text \<open>
  The field during decoding is the slice and the strings left in its backing array
  behind its length. null makes the slice nil, an empty array makes a fresh empty slice.
\<close>

fun decode_files ::
  "string list option \<times> string list \<Rightarrow> json \<Rightarrow> (string list option \<times> string list) option" where
  "decode_files (cur, stale) JNull = Some (None, [])"
| "decode_files (cur, stale) (JArray []) = Some (Some [], [])"
| "decode_files (cur, stale) (JArray (j # js)) =
     (case decode_array (elems cur @ stale) (j # js) of
        None \<Rightarrow> None
      | Some ss \<Rightarrow> Some (Some ss, drop (length ss) (elems cur @ stale)))"
| "decode_files (cur, stale) _ = None"

fun decode_object ::
  "string list option \<times> string list \<Rightarrow> (string \<times> json) list
     \<Rightarrow> (string list option \<times> string list) option" where
  "decode_object st [] = Some st"
| "decode_object st ((k, v) # ms) =
     (if matchesFiles k
      then (case decode_files st v of None \<Rightarrow> None | Some st' \<Rightarrow> decode_object st' ms)
      else decode_object st ms)"

text \<open>
  \<open>json.Unmarshal(data, &archived)\<close> for a zero \<open>archived\<close>. Where Go returns an error
  together with a partly filled struct, the model returns the error only: the one caller
  exits on it.
\<close>

fun Unmarshal :: "filedata \<Rightarrow> error + ArchivedFiles" where
  "Unmarshal NotJSON = Inl SyntaxError"
| "Unmarshal (JSONText JNull) = Inr \<lparr>Files = None\<rparr>"
| "Unmarshal (JSONText (JObject ms)) =
     (case decode_object (None, []) ms of
        None \<Rightarrow> Inl UnmarshalTypeError
      | Some (cur, stale) \<Rightarrow> Inr \<lparr>Files = cur\<rparr>)"
| "Unmarshal (JSONText _) = Inl UnmarshalTypeError"

text \<open>
  \<open>json.MarshalIndent\<close> of the struct; it cannot fail for a slice of strings. Every key is
  written coerced to valid UTF-8.
\<close>

definition MarshalIndent :: "ArchivedFiles \<Rightarrow> filedata" where
  "MarshalIndent a =
     JSONText (JObject [(''files'',
       (case Files a of
          None \<Rightarrow> JNull
        | Some ks \<Rightarrow> JArray (map (\<lambda>k. JString (toValidUTF8 k)) ks)))])"

subsection \<open>The environment\<close>

text \<open>
  Everything the program asks of its surroundings is a field of \<open>world\<close>: the outcome of
  \<open>os.Stat\<close> and \<open>os.MkdirAll\<close> on a directory, of loading the AWS configuration for a
  credentials file and a region, of reading a file, of writing one (\<open>None\<close> on success,
  otherwise the error and whether the file had already been truncated), the pages the bucket's
  paginator returns in order, the directory tree found at a root path, and the outcomes
  of \<open>os.Open\<close> and \<open>PutObject\<close>.
\<close>

datatype FileKind = Regular | Symlink | NamedPipe | Socket | Device | CharDevice

datatype FileMode = ModeDir | ModeFile FileKind

record FileInfo =
  Mode :: FileMode

definition IsDir :: "FileInfo \<Rightarrow> bool" where
  "IsDir info = (Mode info = ModeDir)"

definition IsRegular :: "FileInfo \<Rightarrow> bool" where
  "IsRegular info = (Mode info = ModeFile Regular)"

text \<open>
  What \<open>os.Lstat\<close> and the directory listing find at a path: an entry that cannot be
  examined, an entry that is not a directory, a directory with its entries by name in the
  sorted order in which \<open>filepath.Walk\<close> visits them, or a directory that cannot be listed.
\<close>

datatype fsnode =
    LstatFails error
  | File FileKind
  | Dir "(string \<times> fsnode) list"
  | DirUnreadable error

record world =
  stat :: "string \<Rightarrow> error option"
  mkdirAll :: "string \<Rightarrow> error option"
  loadDefaultConfig :: "string \<Rightarrow> string \<Rightarrow> error option"
  readFile :: "string \<Rightarrow> error + filedata"
  writeFile :: "string \<Rightarrow> (error \<times> bool) option"
  listObjectsV2 :: "string \<Rightarrow> (error + string list) list"
  tree :: "string \<Rightarrow> fsnode"
  openFile :: "string \<Rightarrow> error option"
  putObject :: "string \<Rightarrow> string \<Rightarrow> error option"

subsection \<open>Loading and saving the manifest\<close>

definition LoadArchivedFiles :: "world \<Rightarrow> string \<Rightarrow> error + ArchivedFiles" where
  "LoadArchivedFiles w filename =
     (case readFile w filename of
        Inl err \<Rightarrow> (if IsNotExist err then Inr \<lparr>Files = Some []\<rparr> else Inl err)
      | Inr data \<Rightarrow> Unmarshal data)"

text \<open>
  \<open>SaveArchivedFiles\<close> returns the error of \<open>ioutil.WriteFile\<close> and the files as they read
  afterwards. A write that fails before the file is truncated leaves it as it was; one
  that fails later leaves a proper prefix of the new text, which is not a JSON text.
\<close>

definition SaveArchivedFiles ::
  "world \<Rightarrow> string \<Rightarrow> ArchivedFiles \<Rightarrow> error option \<times> (string \<Rightarrow> error + filedata)" where
  "SaveArchivedFiles w filename archived =
     (let data = MarshalIndent archived
      in case writeFile w filename of
           None \<Rightarrow> (None, (readFile w)(filename := Inr data))
         | Some (err, truncated) \<Rightarrow>
             (Some err, if truncated then (readFile w)(filename := Inr NotJSON) else readFile w))"

subsection \<open>Listing the bucket\<close>

text \<open>
  The paginator hands out the pages in order and has more pages until the list is
  exhausted; \<open>files\<close> accumulates the keys of the pages read so far.
\<close>

fun ListS3Files_loop :: "(error + string list) list \<Rightarrow> string list \<Rightarrow> error + string list" where
  "ListS3Files_loop [] files = Inr files"
| "ListS3Files_loop (Inl err # pages) files = Inl err"
| "ListS3Files_loop (Inr contents # pages) files = ListS3Files_loop pages (files @ contents)"

definition ListS3Files :: "world \<Rightarrow> string \<Rightarrow> error + string list" where
  "ListS3Files w bucket = ListS3Files_loop (listObjectsV2 w bucket) []"

subsection \<open>Uploading one file\<close>

definition UploadFile :: "world \<Rightarrow> string \<Rightarrow> string \<Rightarrow> string \<Rightarrow> error option" where
  "UploadFile w localPath s3Key bucket =
     (case openFile w localPath of
        Some err \<Rightarrow> Some (OpenFailed localPath err)
      | None \<Rightarrow>
          (case putObject w bucket s3Key of
             Some err \<Rightarrow> Some (UploadFailed s3Key err)
           | None \<Rightarrow> None))"

definition EnsureArchiveDirectory :: "world \<Rightarrow> string \<Rightarrow> error option" where
  "EnsureArchiveDirectory w directory =
     (case stat w directory of
        Some err \<Rightarrow> (if IsNotExist err then mkdirAll w directory else None)
      | None \<Rightarrow> None)"

subsection \<open>filepath.Walk\<close>

text \<open>
  \<open>walk\<close> calls the callback on an entry and, for a directory it could list, descends
  into the entries in order; the first error a callback returns ends the walk. An entry
  that cannot be examined is reported to the callback with a nil \<open>FileInfo\<close> (in Go by the
  caller of \<open>walk\<close>, here by its first equation). The state of the callback's closure is
  threaded through as \<open>st\<close>.
\<close>

definition dirInfo :: FileInfo where
  "dirInfo = \<lparr>Mode = ModeDir\<rparr>"

fun walk ::
  "char \<Rightarrow> (string \<Rightarrow> FileInfo option \<Rightarrow> error option \<Rightarrow> 's \<Rightarrow> error option \<times> 's)
     \<Rightarrow> string \<Rightarrow> fsnode \<Rightarrow> 's \<Rightarrow> error option \<times> 's"
and walk_names ::
  "char \<Rightarrow> (string \<Rightarrow> FileInfo option \<Rightarrow> error option \<Rightarrow> 's \<Rightarrow> error option \<times> 's)
     \<Rightarrow> string \<Rightarrow> (string \<times> fsnode) list \<Rightarrow> 's \<Rightarrow> error option \<times> 's" where
  "walk sep fn path (LstatFails err) st = fn path None (Some err) st"
| "walk sep fn path (File k) st = fn path (Some \<lparr>Mode = ModeFile k\<rparr>) None st"
| "walk sep fn path (DirUnreadable err) st = fn path (Some dirInfo) (Some err) st"
| "walk sep fn path (Dir names) st =
     (case fn path (Some dirInfo) None st of
        (Some err1, st') \<Rightarrow> (Some err1, st')
      | (None, st') \<Rightarrow> walk_names sep fn path names st')"
| "walk_names sep fn path [] st = (None, st)"
| "walk_names sep fn path ((name, node) # names) st =
     (case walk sep fn (Join sep [path, name]) node st of
        (Some err, st') \<Rightarrow> (Some err, st')
      | (None, st') \<Rightarrow> walk_names sep fn path names st')"

definition Walk ::
  "char \<Rightarrow> world \<Rightarrow> string
     \<Rightarrow> (string \<Rightarrow> FileInfo option \<Rightarrow> error option \<Rightarrow> 's \<Rightarrow> error option \<times> 's)
     \<Rightarrow> 's \<Rightarrow> error option \<times> 's" where
  "Walk sep w root fn st = walk sep fn root (tree w root) st"

subsection \<open>The run\<close>

text \<open>
  What a run does to the outside is recorded as a trace: the two skip messages, every
  call of \<open>UploadFile\<close> with its result, and every call of \<open>ioutil.WriteFile\<close>.
\<close>

datatype event =
    SkipInS3 string
  | SkipArchived string
  | Upload string string string "error option"
  | Write string filedata "error option"

record run_state =
  archived :: ArchivedFiles
  trace :: "event list"

fun s3FileMap_loop :: "string list \<Rightarrow> (string \<rightharpoonup> bool) \<Rightarrow> (string \<rightharpoonup> bool)" where
  "s3FileMap_loop [] m = m"
| "s3FileMap_loop (s3File # s3Files) m = s3FileMap_loop s3Files (m(s3File \<mapsto> True))"

definition lookup :: "(string \<rightharpoonup> bool) \<Rightarrow> string \<Rightarrow> bool" where
  "lookup m k = (case m k of None \<Rightarrow> False | Some b \<Rightarrow> b)"

fun isArchived :: "string list \<Rightarrow> string \<Rightarrow> bool" where
  "isArchived [] s3Key = False"
| "isArchived (archivedFile # rest) s3Key =
     (if archivedFile = s3Key then True else isArchived rest s3Key)"

definition logEvent :: "event \<Rightarrow> run_state \<Rightarrow> run_state" where
  "logEvent ev st = st\<lparr>trace := trace st @ [ev]\<rparr>"

definition walkFn ::
  "char \<Rightarrow> world \<Rightarrow> string \<Rightarrow> string \<Rightarrow> (string \<rightharpoonup> bool)
     \<Rightarrow> string \<Rightarrow> FileInfo option \<Rightarrow> error option \<Rightarrow> run_state \<Rightarrow> error option \<times> run_state" where
  "walkFn sep w bucketName localDirectory s3FileMap path info err st =
     (case err of
        Some e \<Rightarrow> (Some e, st)
      | None \<Rightarrow>
          (case info of
             None \<Rightarrow> (Some NilDereference, st)
           | Some fi \<Rightarrow>
               if IsDir fi then (None, st)
               else
                 let s3Key = s3KeyOf sep localDirectory path
                 in if lookup s3FileMap s3Key then (None, logEvent (SkipInS3 s3Key) st)
                    else if isArchived (elems (Files (archived st))) s3Key
                    then (None, logEvent (SkipArchived s3Key) st)
                    else
                      (case UploadFile w path s3Key bucketName of
                         Some e \<Rightarrow> (Some e, logEvent (Upload path s3Key bucketName (Some e)) st)
                       | None \<Rightarrow>
                           (None,
                            logEvent (Upload path s3Key bucketName None)
                              (st\<lparr>archived :=
                                   \<lparr>Files = append_slice (Files (archived st)) s3Key\<rparr>\<rparr>)))))"

record config =
  credFile :: string
  bucketName :: string
  region :: string
  localDirectory :: string
  archiveFile :: string

datatype exit =
    Success
  | FatalUsage
  | FatalEnsureDir error
  | FatalConfig error
  | FatalLoad error
  | FatalList error
  | FatalWalk error
  | FatalSave error

record outcome =
  status :: exit
  disk :: "string \<Rightarrow> error + filedata"
  events :: "event list"

definition archivePath :: "char \<Rightarrow> config \<Rightarrow> world \<Rightarrow> error + string" where
  "archivePath sep cfg w =
     (if archiveFile cfg \<noteq> [] then Inr (archiveFile cfg)
      else
        (case EnsureArchiveDirectory w ''archives'' of
           Some err \<Rightarrow> Inl err
         | None \<Rightarrow> Inr (GenerateArchiveFilePath sep ''archives'' (localDirectory cfg))))"

definition main :: "char \<Rightarrow> config \<Rightarrow> world \<Rightarrow> outcome" where
  "main sep cfg w =
     (if bucketName cfg = [] \<or> localDirectory cfg = []
      then \<lparr>status = FatalUsage, disk = readFile w, events = []\<rparr>
      else
        (case archivePath sep cfg w of
           Inl err \<Rightarrow> \<lparr>status = FatalEnsureDir err, disk = readFile w, events = []\<rparr>
         | Inr archiveJSON \<Rightarrow>
        (case loadDefaultConfig w (credFile cfg) (region cfg) of
           Some err \<Rightarrow> \<lparr>status = FatalConfig err, disk = readFile w, events = []\<rparr>
         | None \<Rightarrow>
        (case LoadArchivedFiles w archiveJSON of
           Inl err \<Rightarrow> \<lparr>status = FatalLoad err, disk = readFile w, events = []\<rparr>
         | Inr loaded \<Rightarrow>
        (case ListS3Files w (bucketName cfg) of
           Inl err \<Rightarrow> \<lparr>status = FatalList err, disk = readFile w, events = []\<rparr>
         | Inr s3Files \<Rightarrow>
        (let s3FileMap = s3FileMap_loop s3Files Map.empty
         in case Walk sep w (localDirectory cfg)
                   (walkFn sep w (bucketName cfg) (localDirectory cfg) s3FileMap)
                   \<lparr>archived = loaded, trace = []\<rparr> of
              (Some err, st) \<Rightarrow> \<lparr>status = FatalWalk err, disk = readFile w, events = trace st\<rparr>
            | (None, st) \<Rightarrow>
                (case SaveArchivedFiles w archiveJSON (archived st) of
                   (res, disk') \<Rightarrow>
                     \<lparr>status = (case res of Some err \<Rightarrow> FatalSave err | None \<Rightarrow> Success),
                      disk = disk',
                      events = trace st
                        @ [Write archiveJSON (MarshalIndent (archived st)) res]\<rparr>)))))))"

subsection \<open>Successive runs\<close>

text \<open>
  The keys a run uploaded, the keys it called \<open>UploadFile\<close> for, and the data it handed
  to \<open>ioutil.WriteFile\<close>.
\<close>

fun uploaded :: "event list \<Rightarrow> string list" where
  "uploaded [] = []"
| "uploaded (Upload p k b None # evs) = k # uploaded evs"
| "uploaded (ev # evs) = uploaded evs"

fun attempted :: "event list \<Rightarrow> string list" where
  "attempted [] = []"
| "attempted (Upload p k b r # evs) = k # attempted evs"
| "attempted (ev # evs) = attempted evs"

fun written :: "event list \<Rightarrow> filedata list" where
  "written [] = []"
| "written (Write f d r # evs) = d # written evs"
| "written (ev # evs) = written evs"

text \<open>The path of the manifest file of a configuration, and the keys stored there.\<close>

definition archiveJSON :: "char \<Rightarrow> config \<Rightarrow> string" where
  "archiveJSON sep cfg =
     (if archiveFile cfg \<noteq> [] then archiveFile cfg
      else GenerateArchiveFilePath sep ''archives'' (localDirectory cfg))"

definition stored_keys :: "char \<Rightarrow> config \<Rightarrow> world \<Rightarrow> string list" where
  "stored_keys sep cfg w =
     (case LoadArchivedFiles w (archiveJSON sep cfg) of
        Inl err \<Rightarrow> []
      | Inr a \<Rightarrow> elems (Files a))"

subsection \<open>The walk as a sequence of callback invocations\<close>

text \<open>
  The arguments of the callback invocations \<open>walk\<close> makes when no callback returns an
  error, in order; \<open>run_visits\<close> makes them until the first error.
\<close>

fun visits :: "char \<Rightarrow> string \<Rightarrow> fsnode \<Rightarrow> (string \<times> FileInfo option \<times> error option) list"
and visits_names ::
  "char \<Rightarrow> string \<Rightarrow> (string \<times> fsnode) list \<Rightarrow> (string \<times> FileInfo option \<times> error option) list" where
  "visits sep path (LstatFails err) = [(path, None, Some err)]"
| "visits sep path (File k) = [(path, Some \<lparr>Mode = ModeFile k\<rparr>, None)]"
| "visits sep path (DirUnreadable err) = [(path, Some dirInfo, Some err)]"
| "visits sep path (Dir names) = (path, Some dirInfo, None) # visits_names sep path names"
| "visits_names sep path [] = []"
| "visits_names sep path ((name, node) # names) =
     visits sep (Join sep [path, name]) node @ visits_names sep path names"

fun run_visits ::
  "(string \<Rightarrow> FileInfo option \<Rightarrow> error option \<Rightarrow> 's \<Rightarrow> error option \<times> 's)
     \<Rightarrow> (string \<times> FileInfo option \<times> error option) list \<Rightarrow> 's \<Rightarrow> error option \<times> 's" where
  "run_visits fn [] st = (None, st)"
| "run_visits fn ((path, info, err) # vs) st =
     (case fn path info err st of
        (Some e, st') \<Rightarrow> (Some e, st')
      | (None, st') \<Rightarrow> run_visits fn vs st')"

subsection \<open>Example environments\<close>

definition demo_world :: world where
  "demo_world =
     \<lparr>stat = (\<lambda>d. None),
      mkdirAll = (\<lambda>d. None),
      loadDefaultConfig = (\<lambda>c r. None),
      readFile = (\<lambda>f. Inl ErrNotExist),
      writeFile = (\<lambda>f. None),
      listObjectsV2 = (\<lambda>b. [Inr [''a.txt'']]),
      tree = (\<lambda>root.
        if root = ''.'' then Dir [(''.env'', File Regular)]
        else Dir [(''a.txt'', File Regular), (''lnk'', File Symlink),
                  (''sub'', Dir [(''b.txt'', File Regular)])]),
      openFile = (\<lambda>p. None),
      putObject = (\<lambda>b k. None)\<rparr>"

definition demo_config :: config where
  "demo_config =
     \<lparr>credFile = '''', bucketName = ''bucket'', region = ''ap-northeast-1'',
      localDirectory = ''data'', archiveFile = ''''\<rparr>"

text \<open>
  One world a run after the run in \<open>w\<close> may find: the files as that run left them and a
  bucket that lists the uploaded keys on a further page, the rest as in \<open>w\<close>. It serves
  as an example only; what is proved of later runs states what it needs of their worlds.
\<close>

definition next_world :: "char \<Rightarrow> config \<Rightarrow> world \<Rightarrow> world" where
  "next_world sep cfg w =
     (let out = main sep cfg w
      in w\<lparr>readFile := disk out,
           listObjectsV2 := (listObjectsV2 w)
             (bucketName cfg := listObjectsV2 w (bucketName cfg) @ [Inr (uploaded (events out))])\<rparr>)"

definition failing_pages :: "(error + string list) list" where
  "failing_pages = [Inr [''a.txt''], Inl (BackendError ''timeout''), Inr [''z.txt'']]"

definition flaky_world :: world where
  "flaky_world =
     demo_world\<lparr>putObject :=
       (\<lambda>b k. if k = ''sub/b.txt'' then Some (BackendError ''slow down'') else None)\<rparr>"

text \<open>
  What a run after the one in \<open>flaky_world\<close> may find: the manifest file was not written,
  the bucket lists the object \<open>lnk\<close> that was stored, and uploads succeed.
\<close>

definition after_flaky_world :: world where
  "after_flaky_world = demo_world\<lparr>listObjectsV2 := (\<lambda>b. [Inr [''a.txt'', ''lnk'']])\<rparr>"

text \<open>A directory with two files whose names are single bytes that are not valid UTF-8.\<close>

definition latin1_world :: world where
  "latin1_world =
     demo_world\<lparr>tree := (\<lambda>root. Dir [([CHR 0xFE], File Regular), ([CHR 0xFF], File Regular)])\<rparr>"

definition typed_wrong :: filedata where
  "typed_wrong = JSONText (JObject [(''files'', JNumber ''5'')])"

definition broken_world :: world where
  "broken_world =
     demo_world\<lparr>tree := (\<lambda>root.
       Dir [(''a.txt'', File Regular), (''locked'', DirUnreadable ErrPermission),
            (''z.txt'', File Regular)])\<rparr>"

text \<open>
  The JSON values that decode into the field \<open>Files\<close> without a type error: null, and an
  array whose elements are strings or null; \<open>element\<close> is what such an element decodes to
  in a fresh slice.
\<close>

fun string_or_null :: "json \<Rightarrow> bool" where
  "string_or_null JNull = True"
| "string_or_null (JString s) = True"
| "string_or_null _ = False"

fun fits_files :: "json \<Rightarrow> bool" where
  "fits_files JNull = True"
| "fits_files (JArray js) = list_all string_or_null js"
| "fits_files _ = False"

fun element :: "json \<Rightarrow> string" where
  "element (JString s) = toValidUTF8 s"
| "element _ = []"

subsection \<open>The entries of a tree\<close>

text \<open>
  \<open>entry_at sep path node p n\<close>: in the tree \<open>node\<close> found at \<open>path\<close>, the entry \<open>n\<close> has
  the path \<open>p\<close>. An entry of a directory has the path \<open>filepath.Join(path, name)\<close>, as
  \<open>filepath.Walk\<close> builds it.
\<close>

inductive entry_at :: "char \<Rightarrow> string \<Rightarrow> fsnode \<Rightarrow> string \<Rightarrow> fsnode \<Rightarrow> bool" where
  here: "entry_at sep path node path node"
| below: "(name, child) \<in> set names \<Longrightarrow> entry_at sep (Join sep [path, name]) child p n \<Longrightarrow>
     entry_at sep path (Dir names) p n"

text \<open>A directory that holds a named pipe and a character device.\<close>

definition device_world :: world where
  "device_world =
     demo_world\<lparr>tree := (\<lambda>root. Dir [(''fifo'', File NamedPipe), (''tty'', File CharDevice)])\<rparr>"

section \<open>Properties\<close>

subsection \<open>Strings and paths\<close>

lemma ReplaceAll_char:
  "ReplaceAll s [c] new = concat (map (\<lambda>x. if x = c then new else [x]) s)"
  by (induction s) (auto simp: HasPrefix_def)

lemma ReplaceAll_char_char:
  "ReplaceAll s [c] [n] = map (\<lambda>x. if x = c then n else x) s"
  by (induction s) (auto simp: HasPrefix_def)

text \<open>A path element that is neither empty nor a dot element is copied as it is.\<close>

lemma clean_loop_element:
  assumes "el \<noteq> []" "sep \<notin> set el" "el \<noteq> ''.''" "el \<noteq> ''..''" "out \<noteq> []"
  shows "clean_loop sep False el out dotdot = out @ [sep] @ el"
proof -
  obtain c cs where el: "el = c # cs" using assms(1) by (cases el) auto
  have c: "c \<noteq> sep" and cs: "sep \<notin> set cs" using assms(2) el by auto
  have tw: "takeWhile (\<lambda>x. x \<noteq> sep) (c # cs) = c # cs"
    using c cs by (auto simp: takeWhile_eq_all_conv)
  have dw: "dropWhile (\<lambda>x. x \<noteq> sep) (c # cs) = []"
    using c cs by (auto simp: dropWhile_eq_Nil_conv)
  have dot1: "\<not> (c = CHR ''.'' \<and> (cs = [] \<or> hd cs = sep))"
    using assms(3) el cs by (cases cs) auto
  have dot2: "\<not> (c = CHR ''.'' \<and> hd cs = CHR ''.'' \<and> (tl cs = [] \<or> hd (tl cs) = sep))"
  proof
    assume a: "c = CHR ''.'' \<and> hd cs = CHR ''.'' \<and> (tl cs = [] \<or> hd (tl cs) = sep)"
    with dot1 obtain x xs where x: "cs = x # xs" by (cases cs) auto
    with a have "x = CHR ''.''" by simp
    with a x assms(4) el cs show False by (cases xs) auto
  qed
  show ?thesis
    unfolding el
    apply (subst clean_loop.simps)
    using c dot1 dot2 assms(5)
    apply (simp only: if_False Let_def tw dw)
    apply simp
    done
qed

lemma Clean_archives:
  assumes "CHR ''/'' \<notin> set b"
  shows "Clean (CHR ''/'') (''archives/'' @ b @ ''.json'') = ''archives/'' @ b @ ''.json''"
proof -
  let ?el = "b @ ''.json''"
  have el: "?el \<noteq> []" "CHR ''/'' \<notin> set ?el" "?el \<noteq> ''.''" "?el \<noteq> ''..''"
    using assms by (auto simp: append_eq_Cons_conv)
  have "clean_loop (CHR ''/'') False (''archives/'' @ ?el) [] 0
      = clean_loop (CHR ''/'') False ?el ''archives'' 0"
    by (simp add: Let_def)
  also have "\<dots> = ''archives'' @ ''/'' @ ?el"
    using clean_loop_element [OF el, of "''archives''" 0] by simp
  finally show ?thesis by (simp add: Clean_def)
qed

lemma GenerateArchiveFilePath_unix:
  "GenerateArchiveFilePath (CHR ''/'') ''archives'' r =
     ''archives/'' @ map (\<lambda>c. if c = CHR ''/'' then CHR ''_'' else if c = CHR '':'' then CHR ''-'' else c) r
       @ ''.json''"
proof -
  let ?b = "ReplaceAll (ReplaceAll r ''/'' ''_'') '':'' ''-''"
  have b: "?b = map (\<lambda>c. if c = CHR ''/'' then CHR ''_'' else if c = CHR '':'' then CHR ''-'' else c) r"
    by (simp add: ReplaceAll_char_char)
  have "CHR ''/'' \<notin> set ?b" unfolding b by auto
  from Clean_archives [OF this] have "Join (CHR ''/'') [''archives'', ?b @ ''.json''] = ''archives/'' @ ?b @ ''.json''"
    by (simp add: Join_def)
  then show ?thesis unfolding GenerateArchiveFilePath_def Let_def b by simp
qed

lemma s3KeyOf_under_root:
  "s3KeyOf sep root (root @ sep # rel) = map (\<lambda>c. if c = sep then CHR ''/'' else c) rel"
  by (simp add: s3KeyOf_def TrimPrefix_def HasPrefix_def ReplaceAll_char_char)

subsection \<open>Coercion to valid UTF-8\<close>

lemma runeLen_le: "runeLen s \<le> length s"
  by (cases s) (auto simp: Let_def split: list.splits)

lemma runeLen_high: "runeLen (a # s) \<noteq> 0 \<Longrightarrow> \<not> byte a < 128"
  by (auto simp: Let_def split: if_splits)

lemma runeLen_cases:
  assumes "runeLen s = n" "n \<noteq> 0"
  obtains (two) a b r where "s = a # b # r" "n = 2"
  | (three) a b c r where "s = a # b # c # r" "n = 3"
  | (four) a b c d r where "s = a # b # c # d # r" "n = 4"
proof (cases s)
  case Nil
  with assms show ?thesis by simp
next
  case (Cons a s')
  with assms show ?thesis
    by (auto simp: Let_def split: if_splits list.splits intro: two three four)
qed

lemma runeLen_prefix:
  assumes "runeLen s = n" "n \<noteq> 0"
  shows "runeLen (take n s @ t) = n"
  using assms
proof (cases rule: runeLen_cases)
  case (two a b r)
  with assms show ?thesis by (auto simp: Let_def split: if_splits list.splits)
next
  case (three a b c r)
  with assms show ?thesis by (auto simp: Let_def split: if_splits list.splits)
next
  case (four a b c d r)
  with assms show ?thesis by (auto simp: Let_def split: if_splits list.splits)
qed

lemma toValidUTF8_rune:
  assumes "runeLen s = n" "n \<noteq> 0"
  shows "toValidUTF8 (take n s @ t) = take n s @ toValidUTF8 t"
proof -
  from assms runeLen_le [of s] have len: "n \<le> length s" by simp
  with assms(2) obtain a r where ar: "take n s @ t = a # r" "take n s \<noteq> []"
    by (cases "take n s") auto
  have rl: "runeLen (a # r) = n" using runeLen_prefix [OF assms, of t] ar by simp
  with assms(2) have hi: "\<not> byte a < 128" by (auto dest: runeLen_high)
  have tk: "take n (a # r) = take n s" and dr: "drop n (a # r) = t"
    using len ar(1) [symmetric] by simp_all
  show ?thesis
    unfolding ar(1)
    by (subst toValidUTF8.simps) (simp add: hi rl assms(2) tk dr del: runeLen.simps)
qed

lemma runeLen_replacement: "runeLen (replacement @ t) = 3"
  by (simp add: replacement_def Let_def byte_def cont_def second3_def)

lemma toValidUTF8_replacement: "toValidUTF8 (replacement @ t) = replacement @ toValidUTF8 t"
  using toValidUTF8_rune [of "replacement @ t" 3 t] runeLen_replacement [of t]
  by (simp add: replacement_def)

lemma toValidUTF8_idem: "toValidUTF8 (toValidUTF8 s) = toValidUTF8 s"
proof (induction s rule: toValidUTF8.induct)
  case 1
  then show ?case by simp
next
  case (2 a s)
  show ?case
  proof (cases "byte a < 128")
    case True
    with 2 show ?thesis by simp
  next
    case False
    note hi = this
    show ?thesis
    proof (cases "runeLen (a # s) = 0")
      case True
      with 2 hi show ?thesis by (simp add: toValidUTF8_replacement del: runeLen.simps)
    next
      case False
      with 2 hi toValidUTF8_rune [OF refl False] show ?thesis by (simp del: runeLen.simps)
    qed
  qed
qed

subsection \<open>Decoding the manifest\<close>

lemma elems_simps [simp]: "elems None = []" "elems (Some xs) = xs"
  by (simp_all add: elems_def)

lemma matchesFiles_examples:
  "matchesFiles ''files''" "matchesFiles ''Files''" "\<not> matchesFiles ''note''"
  by code_simp+

lemma decode_object_nulls:
  "(\<forall>(k, v) \<in> set ms. matchesFiles k \<longrightarrow> v = JNull) \<Longrightarrow>
     decode_object (None, []) ms = Some (None, [])"
  by (induction ms) auto

lemma decode_files_not_array:
  "v \<noteq> JNull \<Longrightarrow> (\<forall>js. v \<noteq> JArray js) \<Longrightarrow> decode_files st v = None"
  by (cases st; cases v) auto

lemma decode_string_bad:
  "j \<noteq> JNull \<Longrightarrow> (\<forall>s. j \<noteq> JString s) \<Longrightarrow> decode_string old j = None"
  by (cases j) auto

lemma decode_array_bad:
  "j \<in> set js \<Longrightarrow> j \<noteq> JNull \<Longrightarrow> (\<forall>s. j \<noteq> JString s) \<Longrightarrow> decode_array backing js = None"
proof (induction js arbitrary: backing)
  case Nil
  then show ?case by simp
next
  case (Cons x xs)
  show ?case
  proof (cases "x = j")
    case True
    with Cons.prems show ?thesis by (simp add: decode_string_bad)
  next
    case False
    with Cons.prems have "j \<in> set xs" by simp
    from Cons.IH [OF this Cons.prems(2,3)] show ?thesis
      by (simp split: option.splits)
  qed
qed

lemma decode_files_bad_array:
  "j \<in> set js \<Longrightarrow> j \<noteq> JNull \<Longrightarrow> (\<forall>s. j \<noteq> JString s) \<Longrightarrow> decode_files st (JArray js) = None"
  by (cases st; cases js) (auto simp del: decode_array.simps simp: decode_array_bad)

lemma decode_object_bad:
  "(k, v) \<in> set ms \<Longrightarrow> matchesFiles k \<Longrightarrow> (\<forall>st. decode_files st v = None) \<Longrightarrow>
     decode_object st ms = None"
proof (induction ms arbitrary: st)
  case Nil
  then show ?case by simp
next
  case (Cons m ms)
  obtain k' v' where m: "m = (k', v')" by (cases m)
  show ?case
  proof (cases "(k', v') = (k, v)")
    case True
    with Cons.prems m show ?thesis by (cases st) simp
  next
    case False
    with Cons.prems m have "(k, v) \<in> set ms" by auto
    from Cons.IH [OF this Cons.prems(2,3)] m show ?thesis
      by (simp split: option.splits)
  qed
qed

lemma elems_map_option: "elems (map_option (map f) s) = map f (elems s)"
  by (cases s) simp_all

lemma decode_array_strings:
  "decode_array backing (map JString ks) = Some (map toValidUTF8 ks)"
  by (induction ks arbitrary: backing) auto

lemma Unmarshal_MarshalIndent:
  "Unmarshal (MarshalIndent a) = Inr \<lparr>Files = map_option (map toValidUTF8) (Files a)\<rparr>"
proof (cases "Files a")
  case None
  then show ?thesis by (simp add: MarshalIndent_def matchesFiles_examples)
next
  case (Some ks)
  show ?thesis
  proof (cases ks)
    case Nil
    with Some show ?thesis by (simp add: MarshalIndent_def matchesFiles_examples)
  next
    case (Cons k ks')
    have "decode_array [] (map JString (map toValidUTF8 (k # ks')))
        = Some (map toValidUTF8 (map toValidUTF8 (k # ks')))"
      by (rule decode_array_strings)
    then have "decode_array [] (JString (toValidUTF8 k) # map (\<lambda>k. JString (toValidUTF8 k)) ks')
        = Some (toValidUTF8 k # map toValidUTF8 ks')"
      by (simp add: toValidUTF8_idem comp_def del: decode_array.simps)
    with Some Cons show ?thesis
      by (simp add: MarshalIndent_def matchesFiles_examples del: decode_array.simps)
  qed
qed

text \<open>Every key of a loaded manifest is valid UTF-8: coercing it again changes nothing.\<close>

lemma decode_string_valid:
  "decode_string old j = Some s \<Longrightarrow> toValidUTF8 old = old \<Longrightarrow> toValidUTF8 s = s"
  by (cases j) (auto simp: toValidUTF8_idem)

lemma decode_array_valid:
  "decode_array backing js = Some ss \<Longrightarrow> \<forall>b \<in> set backing. toValidUTF8 b = b \<Longrightarrow>
     \<forall>s \<in> set ss. toValidUTF8 s = s"
proof (induction js arbitrary: backing ss)
  case Nil
  then show ?case by simp
next
  case (Cons j js)
  from Cons.prems(1) obtain s ss' where
    s: "decode_string (case backing of [] \<Rightarrow> [] | b # _ \<Rightarrow> b) j = Some s"
    and ss': "decode_array (tl backing) js = Some ss'" and eq: "ss = s # ss'"
    by (auto split: option.splits)
  have "toValidUTF8 (case backing of [] \<Rightarrow> [] | b # _ \<Rightarrow> b) = (case backing of [] \<Rightarrow> [] | b # _ \<Rightarrow> b)"
    using Cons.prems(2) by (cases backing) auto
  from decode_string_valid [OF s this] have vs: "toValidUTF8 s = s" .
  have "\<forall>b \<in> set (tl backing). toValidUTF8 b = b"
    using Cons.prems(2) by (cases backing) auto
  from Cons.IH [OF ss' this] vs eq show ?case by simp
qed

lemma decode_files_valid:
  assumes "decode_files (cur, stale) v = Some (cur', stale')"
    and "\<forall>b \<in> set (elems cur @ stale). toValidUTF8 b = b"
  shows "\<forall>b \<in> set (elems cur' @ stale'). toValidUTF8 b = b"
proof (cases v)
  case (JArray js)
  show ?thesis
  proof (cases js)
    case Nil
    with JArray assms show ?thesis by auto
  next
    case (Cons j js')
    with JArray assms(1) obtain ss where
      d: "decode_array (elems cur @ stale) (j # js') = Some ss"
      and c: "cur' = Some ss" "stale' = drop (length ss) (elems cur @ stale)"
      by (auto split: option.splits)
    from decode_array_valid [OF d assms(2)] have "\<forall>s \<in> set ss. toValidUTF8 s = s" .
    moreover have "\<forall>b \<in> set stale'. toValidUTF8 b = b"
      using assms(2) c(2) by (auto dest: in_set_dropD)
    ultimately show ?thesis using c(1) by auto
  qed
qed (use assms in auto)

lemma decode_object_valid:
  "decode_object st ms = Some st' \<Longrightarrow> \<forall>b \<in> set (elems (fst st) @ snd st). toValidUTF8 b = b \<Longrightarrow>
     \<forall>b \<in> set (elems (fst st') @ snd st'). toValidUTF8 b = b"
proof (induction ms arbitrary: st)
  case Nil
  then show ?case by simp
next
  case (Cons m ms)
  obtain k v where m: "m = (k, v)" by (cases m)
  show ?case
  proof (cases "matchesFiles k")
    case False
    with Cons.prems(1) m have "decode_object st ms = Some st'" by simp
    from Cons.IH [OF this Cons.prems(2)] show ?thesis .
  next
    case True
    with Cons.prems(1) m obtain st1 where
      d: "decode_files st v = Some st1" and r: "decode_object st1 ms = Some st'"
      by (auto split: option.splits)
    from decode_files_valid [of "fst st" "snd st" v "fst st1" "snd st1"] d Cons.prems(2)
    have "\<forall>b \<in> set (elems (fst st1) @ snd st1). toValidUTF8 b = b" by simp
    from Cons.IH [OF r this] show ?thesis .
  qed
qed

lemma Unmarshal_valid:
  assumes "Unmarshal d = Inr a"
  shows "\<forall>k \<in> set (elems (Files a)). toValidUTF8 k = k"
proof (cases d)
  case NotJSON
  with assms show ?thesis by simp
next
  case (JSONText j)
  show ?thesis
  proof (cases j)
    case (JObject ms)
    with JSONText assms obtain cur stale where
      d: "decode_object (None, []) ms = Some (cur, stale)" and a: "a = \<lparr>Files = cur\<rparr>"
      by (auto split: option.splits)
    from decode_object_valid [OF d] a show ?thesis by simp
  qed (use JSONText assms in auto)
qed

lemma LoadArchivedFiles_valid:
  "LoadArchivedFiles w f = Inr a \<Longrightarrow> \<forall>k \<in> set (elems (Files a)). toValidUTF8 k = k"
  by (auto simp: LoadArchivedFiles_def dest: Unmarshal_valid split: sum.splits if_splits)

subsection \<open>Listing the bucket\<close>

lemma ListS3Files_loop_fails:
  "Inl e \<in> set pages \<Longrightarrow>
     \<exists>e' goods rest. ListS3Files_loop pages files = Inl e' \<and> pages = map Inr goods @ Inl e' # rest"
proof (induction pages files rule: ListS3Files_loop.induct)
  case (1 files)
  then show ?case by simp
next
  case (2 err pages files)
  have "Inl err # pages = map Inr [] @ Inl err # pages" by simp
  then show ?case by (metis ListS3Files_loop.simps(2))
next
  case (3 contents pages files)
  then obtain e' goods rest where
    "ListS3Files_loop pages (files @ contents) = Inl e'" "pages = map Inr goods @ Inl e' # rest"
    by auto
  then have "ListS3Files_loop (Inr contents # pages) files = Inl e'
      \<and> Inr contents # pages = map Inr (contents # goods) @ Inl e' # rest"
    by simp
  then show ?case by blast
qed

lemma ListS3Files_loop_append:
  "ListS3Files_loop (pages @ [Inr us]) files =
     (case ListS3Files_loop pages files of Inl e \<Rightarrow> Inl e | Inr ks \<Rightarrow> Inr (ks @ us))"
  by (induction pages files rule: ListS3Files_loop.induct) auto

subsection \<open>The loops of the reconciler\<close>

lemma isArchived_iff: "isArchived xs k = (k \<in> set xs)"
  by (induction xs) auto

lemma lookup_s3FileMap_loop: "lookup (s3FileMap_loop ks m) k = (k \<in> set ks \<or> lookup m k)"
  by (induction ks arbitrary: m) (auto simp: lookup_def)

lemma lookup_s3FileMap: "lookup (s3FileMap_loop ks Map.empty) k = (k \<in> set ks)"
  by (simp add: lookup_s3FileMap_loop) (simp add: lookup_def)

lemma run_visits_append:
  "run_visits fn (xs @ ys) st =
     (case run_visits fn xs st of
        (Some e, st') \<Rightarrow> (Some e, st')
      | (None, st') \<Rightarrow> run_visits fn ys st')"
  by (induction fn xs st rule: run_visits.induct) (auto split: prod.splits option.splits)

lemma walk_run_visits:
  "walk sep fn path node st = run_visits fn (visits sep path node) st"
  "walk_names sep fn path names st = run_visits fn (visits_names sep path names) st"
proof (induction sep fn path node st and sep fn path names st rule: walk_walk_names.induct)
  case (6 sep fn path name node names st)
  then show ?case
    by (simp add: run_visits_append split: prod.splits option.splits)
qed (simp_all split: prod.splits option.splits)

lemma visits_names_append:
  "visits_names sep path (xs @ ys) = visits_names sep path xs @ visits_names sep path ys"
  by (induction xs) auto

lemma walk_names_append:
  "walk_names sep fn path (xs @ ys) st =
     (case walk_names sep fn path xs st of
        (Some e, st') \<Rightarrow> (Some e, st')
      | (None, st') \<Rightarrow> walk_names sep fn path ys st')"
  by (simp add: walk_run_visits run_visits_append visits_names_append
        split: prod.splits option.splits)

subsection \<open>One invocation of the walk callback\<close>

lemma walkFn_err [simp]: "walkFn sep w b d m path info (Some e) st = (Some e, st)"
  by (simp add: walkFn_def)

lemma walkFn_nil [simp]: "walkFn sep w b d m path None None st = (Some NilDereference, st)"
  by (simp add: walkFn_def)

lemma walkFn_dir [simp]: "IsDir fi \<Longrightarrow> walkFn sep w b d m path (Some fi) None st = (None, st)"
  by (simp add: walkFn_def)

lemma walkFn_file:
  "\<not> IsDir fi \<Longrightarrow> walkFn sep w b d m path (Some fi) None st =
     (let k = s3KeyOf sep d path
      in if lookup m k then (None, logEvent (SkipInS3 k) st)
         else if k \<in> set (elems (Files (archived st))) then (None, logEvent (SkipArchived k) st)
         else (case UploadFile w path k b of
                 Some e \<Rightarrow> (Some e, logEvent (Upload path k b (Some e)) st)
               | None \<Rightarrow>
                   (None, logEvent (Upload path k b None)
                      (st\<lparr>archived := \<lparr>Files = Some (elems (Files (archived st)) @ [k])\<rparr>\<rparr>))))"
  by (simp add: walkFn_def isArchived_iff append_slice_def Let_def split: option.splits)

lemma walkFn_step:
  assumes "walkFn sep w b d m path info err st = (r, st')"
  obtains
    (error) e where "err = Some e" "r = Some e" "st' = st"
  | (nil) "err = None" "info = None" "r = Some NilDereference" "st' = st"
  | (dir) fi where "err = None" "info = Some fi" "IsDir fi" "r = None" "st' = st"
  | (inS3) fi where "err = None" "info = Some fi" "\<not> IsDir fi"
      "lookup m (s3KeyOf sep d path)" "r = None"
      "st' = logEvent (SkipInS3 (s3KeyOf sep d path)) st"
  | (known) fi where "err = None" "info = Some fi" "\<not> IsDir fi"
      "\<not> lookup m (s3KeyOf sep d path)"
      "s3KeyOf sep d path \<in> set (elems (Files (archived st)))" "r = None"
      "st' = logEvent (SkipArchived (s3KeyOf sep d path)) st"
  | (failed) fi e where "err = None" "info = Some fi" "\<not> IsDir fi"
      "\<not> lookup m (s3KeyOf sep d path)"
      "s3KeyOf sep d path \<notin> set (elems (Files (archived st)))"
      "UploadFile w path (s3KeyOf sep d path) b = Some e" "r = Some e"
      "st' = logEvent (Upload path (s3KeyOf sep d path) b (Some e)) st"
  | (sent) fi where "err = None" "info = Some fi" "\<not> IsDir fi"
      "\<not> lookup m (s3KeyOf sep d path)"
      "s3KeyOf sep d path \<notin> set (elems (Files (archived st)))"
      "UploadFile w path (s3KeyOf sep d path) b = None" "r = None"
      "st' = logEvent (Upload path (s3KeyOf sep d path) b None)
               (st\<lparr>archived := \<lparr>Files = Some (elems (Files (archived st)) @ [s3KeyOf sep d path])\<rparr>\<rparr>)"
proof (cases err)
  case (Some e)
  with assms show ?thesis by (intro error [of e]) simp_all
next
  case None
  note eN = this
  show ?thesis
  proof (cases info)
    case None
    with assms eN show ?thesis by (intro nil) simp_all
  next
    case (Some fi)
    note iS = this
    show ?thesis
    proof (cases "IsDir fi")
      case True
      with assms eN iS show ?thesis by (intro dir [of fi]) simp_all
    next
      case False
      note nd = this
      let ?k = "s3KeyOf sep d path"
      have eq: "walkFn sep w b d m path (Some fi) None st = (r, st')"
        using assms eN iS by simp
      show ?thesis
      proof (cases "lookup m ?k")
        case True
        with eq nd show ?thesis
          by (intro inS3 [of fi]) (simp_all add: eN iS walkFn_file Let_def)
      next
        case False
        note nl = this
        show ?thesis
        proof (cases "?k \<in> set (elems (Files (archived st)))")
          case True
          with eq nd nl show ?thesis
            by (intro known [of fi]) (simp_all add: eN iS walkFn_file Let_def)
        next
          case False
          note na = this
          show ?thesis
          proof (cases "UploadFile w path ?k b")
            case None
            with eq nd nl na show ?thesis
              by (intro sent [of fi]) (auto simp: eN iS walkFn_file Let_def)
          next
            case (Some e)
            with eq nd nl na show ?thesis
              by (intro failed [of fi e]) (auto simp: eN iS walkFn_file Let_def)
          qed
        qed
      qed
    qed
  qed
qed

subsection \<open>Invariants of a walk\<close>

lemma trace_logEvent [simp]: "trace (logEvent ev st) = trace st @ [ev]"
  by (simp add: logEvent_def)

lemma archived_logEvent [simp]: "archived (logEvent ev st) = archived st"
  by (simp add: logEvent_def)

lemma uploaded_append [simp]: "uploaded (xs @ ys) = uploaded xs @ uploaded ys"
  by (induction xs rule: uploaded.induct) auto

lemma attempted_append [simp]: "attempted (xs @ ys) = attempted xs @ attempted ys"
  by (induction xs rule: attempted.induct) auto

lemma written_append [simp]: "written (xs @ ys) = written xs @ written ys"
  by (induction xs rule: written.induct) auto

lemma run_visits_invariant:
  assumes "run_visits fn vs st = (r, st')" and "P st"
    and step: "\<And>path info err s r s'. (path, info, err) \<in> set vs \<Longrightarrow> P s \<Longrightarrow>
                 fn path info err s = (r, s') \<Longrightarrow> P s'"
  shows "P st'"
  using assms
proof (induction vs arbitrary: st)
  case Nil
  then show ?case by simp
next
  case (Cons v vs)
  obtain path info err where v: "v = (path, info, err)" by (cases v)
  obtain r1 s1 where f: "fn path info err st = (r1, s1)" by (cases "fn path info err st")
  have P1: "P s1" using Cons.prems(3) [of path info err st r1 s1] Cons.prems(2) f v by simp
  show ?case
  proof (cases r1)
    case None
    with Cons.prems(1) v f have "run_visits fn vs s1 = (r, st')" by simp
    from Cons.IH [OF this P1] Cons.prems(3) show ?thesis by (metis list.set_intros(2))
  next
    case (Some e)
    with Cons.prems(1) v f have "st' = s1" by simp
    with P1 show ?thesis by simp
  qed
qed

text \<open>Every attempted upload is for a key that is neither listed nor archived.\<close>

lemma uploads_not_listed:
  assumes "run_visits (walkFn sep w b d m) vs st = (r, st')"
    and "\<forall>p k b' r'. Upload p k b' r' \<in> set (trace st) \<longrightarrow> \<not> lookup m k"
  shows "\<forall>p k b' r'. Upload p k b' r' \<in> set (trace st') \<longrightarrow> \<not> lookup m k"
proof (rule run_visits_invariant [OF assms(1), where P = "\<lambda>s. \<forall>p k b' r'. Upload p k b' r' \<in> set (trace s) \<longrightarrow> \<not> lookup m k"])
  show "\<forall>p k b' r'. Upload p k b' r' \<in> set (trace st) \<longrightarrow> \<not> lookup m k" by (rule assms(2))
next
  fix path info err s r s'
  assume P: "\<forall>p k b' r'. Upload p k b' r' \<in> set (trace s) \<longrightarrow> \<not> lookup m k"
    and f: "walkFn sep w b d m path info err s = (r, s')"
  from f show "\<forall>p k b' r'. Upload p k b' r' \<in> set (trace s') \<longrightarrow> \<not> lookup m k"
    by (cases rule: walkFn_step) (use P in auto)
qed

lemma written_unchanged:
  assumes "run_visits (walkFn sep w b d m) vs st = (r, st')"
  shows "written (trace st') = written (trace st)"
proof (rule run_visits_invariant [OF assms(1), where P = "\<lambda>s. written (trace s) = written (trace st)"])
  fix path info err s r s'
  assume P: "written (trace s) = written (trace st)"
    and f: "walkFn sep w b d m path info err s = (r, s')"
  from f show "written (trace s') = written (trace st)"
    by (cases rule: walkFn_step) (use P in auto)
qed simp

lemma distinct_preserved:
  assumes "run_visits (walkFn sep w b d m) vs st = (r, st')"
    and "distinct (elems (Files (archived st)))"
  shows "distinct (elems (Files (archived st')))"
proof (rule run_visits_invariant [OF assms(1), where P = "\<lambda>s. distinct (elems (Files (archived s)))"])
  fix path info err s r s'
  assume P: "distinct (elems (Files (archived s)))"
    and f: "walkFn sep w b d m path info err s = (r, s')"
  from f show "distinct (elems (Files (archived s')))"
    by (cases rule: walkFn_step) (use P in \<open>auto simp: elems_def\<close>)
qed (rule assms(2))

text \<open>The manifest grows by exactly the keys uploaded.\<close>

lemma archived_grows:
  assumes "run_visits (walkFn sep w b d m) vs st = (r, st')"
  shows "\<exists>ks. elems (Files (archived st')) = elems (Files (archived st)) @ ks
              \<and> uploaded (trace st') = uploaded (trace st) @ ks"
proof (rule run_visits_invariant [OF assms(1), where P = "\<lambda>s. \<exists>ks. elems (Files (archived s)) = elems (Files (archived st)) @ ks
              \<and> uploaded (trace s) = uploaded (trace st) @ ks"])
  fix path info err s r s'
  assume P: "\<exists>ks. elems (Files (archived s)) = elems (Files (archived st)) @ ks
              \<and> uploaded (trace s) = uploaded (trace st) @ ks"
    and f: "walkFn sep w b d m path info err s = (r, s')"
  from f show "\<exists>ks. elems (Files (archived s')) = elems (Files (archived st)) @ ks
              \<and> uploaded (trace s') = uploaded (trace st) @ ks"
    by (cases rule: walkFn_step) (use P in \<open>auto simp: elems_def\<close>)
qed simp

lemma uploaded_grows:
  assumes "run_visits (walkFn sep w b d m) vs st = (r, st')"
  shows "set (uploaded (trace st)) \<subseteq> set (uploaded (trace st'))"
  using archived_grows [OF assms] by auto

text \<open>A failed upload is the last thing a walk does, and its key is not in the manifest.\<close>

lemma failed_upload_last:
  assumes "run_visits (walkFn sep w b d m) vs st = (r, st')"
    and "\<forall>p k b' e. Upload p k b' (Some e) \<notin> set (trace st)"
  shows "\<forall>p k b' e. Upload p k b' (Some e) \<in> set (trace st') \<longrightarrow>
           r = Some e \<and> k \<notin> set (elems (Files (archived st')))"
  using assms
proof (induction vs arbitrary: st)
  case Nil
  then show ?case by simp
next
  case (Cons v vs)
  obtain path info err where v: "v = (path, info, err)" by (cases v)
  obtain r1 s1 where f: "walkFn sep w b d m path info err st = (r1, s1)"
    by (cases "walkFn sep w b d m path info err st")
  from f show ?case
  proof (cases rule: walkFn_step)
    case (failed fi e)
    with Cons.prems v f show ?thesis by auto
  next
    case (sent fi)
    with Cons.prems v f have run: "run_visits (walkFn sep w b d m) vs s1 = (r, st')" by simp
    have "\<forall>p k b' e. Upload p k b' (Some e) \<notin> set (trace s1)"
      using sent Cons.prems(2) by auto
    from Cons.IH [OF run this] show ?thesis .
  next
    case (inS3 fi)
    with Cons.prems v f have run: "run_visits (walkFn sep w b d m) vs s1 = (r, st')" by simp
    have "\<forall>p k b' e. Upload p k b' (Some e) \<notin> set (trace s1)"
      using inS3 Cons.prems(2) by auto
    from Cons.IH [OF run this] show ?thesis .
  next
    case (known fi)
    with Cons.prems v f have run: "run_visits (walkFn sep w b d m) vs s1 = (r, st')" by simp
    have "\<forall>p k b' e. Upload p k b' (Some e) \<notin> set (trace s1)"
      using known Cons.prems(2) by auto
    from Cons.IH [OF run this] show ?thesis .
  next
    case (dir fi)
    with Cons.prems v f have run: "run_visits (walkFn sep w b d m) vs s1 = (r, st')" by simp
    from Cons.IH [OF run] dir Cons.prems(2) show ?thesis by simp
  next
    case (error e)
    with Cons.prems v f show ?thesis by auto
  next
    case nil
    with Cons.prems v f show ?thesis by auto
  qed
qed

lemma uploads_not_archived:
  assumes "run_visits (walkFn sep w b d m) vs st = (r, st')"
    and "\<forall>p k b' r'. Upload p k b' r' \<in> set (trace st) \<longrightarrow> k \<notin> A"
    and "A \<subseteq> set (elems (Files (archived st)))"
  shows "(\<forall>p k b' r'. Upload p k b' r' \<in> set (trace st') \<longrightarrow> k \<notin> A)
         \<and> A \<subseteq> set (elems (Files (archived st')))"
proof (rule run_visits_invariant [OF assms(1), where P = "\<lambda>s. (\<forall>p k b' r'. Upload p k b' r' \<in> set (trace s) \<longrightarrow> k \<notin> A)
         \<and> A \<subseteq> set (elems (Files (archived s)))"])
  show "(\<forall>p k b' r'. Upload p k b' r' \<in> set (trace st) \<longrightarrow> k \<notin> A)
         \<and> A \<subseteq> set (elems (Files (archived st)))"
    using assms(2,3) by simp
next
  fix path info err s r s'
  assume P: "(\<forall>p k b' r'. Upload p k b' r' \<in> set (trace s) \<longrightarrow> k \<notin> A)
         \<and> A \<subseteq> set (elems (Files (archived s)))"
    and f: "walkFn sep w b d m path info err s = (r, s')"
  from f show "(\<forall>p k b' r'. Upload p k b' r' \<in> set (trace s') \<longrightarrow> k \<notin> A)
         \<and> A \<subseteq> set (elems (Files (archived s')))"
  proof (cases rule: walkFn_step)
    case (failed fi e)
    with P show ?thesis by (simp add: subset_iff) blast
  next
    case (sent fi)
    with P show ?thesis by (simp add: subset_iff) blast
  qed (use P in simp_all)
qed

lemma uploads_are_visited_files:
  assumes "run_visits (walkFn sep w b d m) vs st = (r, st')"
    and "\<forall>p k b' r'. Upload p k b' r' \<in> set (trace st) \<longrightarrow>
           (\<exists>fi. (p, Some fi, None) \<in> set vs \<and> \<not> IsDir fi)"
  shows "\<forall>p k b' r'. Upload p k b' r' \<in> set (trace st') \<longrightarrow>
           (\<exists>fi. (p, Some fi, None) \<in> set vs \<and> \<not> IsDir fi)"
proof (rule run_visits_invariant [OF assms(1), where P = "\<lambda>s. \<forall>p k b' r'. Upload p k b' r' \<in> set (trace s) \<longrightarrow>
           (\<exists>fi. (p, Some fi, None) \<in> set vs \<and> \<not> IsDir fi)"])
  show "\<forall>p k b' r'. Upload p k b' r' \<in> set (trace st) \<longrightarrow>
           (\<exists>fi. (p, Some fi, None) \<in> set vs \<and> \<not> IsDir fi)"
    by (rule assms(2))
next
  fix path info err s r s'
  assume v: "(path, info, err) \<in> set vs"
    and P: "\<forall>p k b' r'. Upload p k b' r' \<in> set (trace s) \<longrightarrow>
           (\<exists>fi. (p, Some fi, None) \<in> set vs \<and> \<not> IsDir fi)"
    and f: "walkFn sep w b d m path info err s = (r, s')"
  from f show "\<forall>p k b' r'. Upload p k b' r' \<in> set (trace s') \<longrightarrow>
           (\<exists>fi. (p, Some fi, None) \<in> set vs \<and> \<not> IsDir fi)"
  proof (cases rule: walkFn_step)
    case (failed fi e)
    with P v show ?thesis by simp blast
  next
    case (sent fi)
    with P v show ?thesis by simp blast
  qed (use P in simp_all)
qed

subsection \<open>The stages of a run\<close>

lemma main_cases:
  obtains
    (early) "events (main sep cfg w) = []" "disk (main sep cfg w) = readFile w"
      "status (main sep cfg w) \<noteq> Success"
      "\<forall>e. status (main sep cfg w) \<noteq> FatalWalk e"
      "\<forall>e. status (main sep cfg w) \<noteq> FatalSave e"
  | (aborted) f a ks e st where
      "bucketName cfg \<noteq> []" "localDirectory cfg \<noteq> []" "archivePath sep cfg w = Inr f"
      "loadDefaultConfig w (credFile cfg) (region cfg) = None"
      "LoadArchivedFiles w f = Inr a" "ListS3Files w (bucketName cfg) = Inr ks"
      "Walk sep w (localDirectory cfg)
         (walkFn sep w (bucketName cfg) (localDirectory cfg) (s3FileMap_loop ks Map.empty))
         \<lparr>archived = a, trace = []\<rparr> = (Some e, st)"
      "main sep cfg w = \<lparr>status = FatalWalk e, disk = readFile w, events = trace st\<rparr>"
  | (saved) f a ks st where
      "bucketName cfg \<noteq> []" "localDirectory cfg \<noteq> []" "archivePath sep cfg w = Inr f"
      "loadDefaultConfig w (credFile cfg) (region cfg) = None"
      "LoadArchivedFiles w f = Inr a" "ListS3Files w (bucketName cfg) = Inr ks"
      "Walk sep w (localDirectory cfg)
         (walkFn sep w (bucketName cfg) (localDirectory cfg) (s3FileMap_loop ks Map.empty))
         \<lparr>archived = a, trace = []\<rparr> = (None, st)"
      "main sep cfg w =
         \<lparr>status = (case fst (SaveArchivedFiles w f (archived st)) of
                      Some err \<Rightarrow> FatalSave err | None \<Rightarrow> Success),
          disk = snd (SaveArchivedFiles w f (archived st)),
          events = trace st @ [Write f (MarshalIndent (archived st))
                                 (fst (SaveArchivedFiles w f (archived st)))]\<rparr>"
proof (cases "bucketName cfg = [] \<or> localDirectory cfg = []")
  case True
  then show ?thesis by (intro early) (simp_all add: main_def)
next
  case False
  note ok = this
  show ?thesis
  proof (cases "archivePath sep cfg w")
    case (Inl err)
    with ok show ?thesis by (intro early) (simp_all add: main_def)
  next
    case (Inr f)
    note pf = this
    show ?thesis
    proof (cases "loadDefaultConfig w (credFile cfg) (region cfg)")
      case (Some err)
      with ok pf show ?thesis by (intro early) (simp_all add: main_def)
    next
      case None
      note cf = this
      show ?thesis
      proof (cases "LoadArchivedFiles w f")
        case (Inl err)
        with ok pf cf show ?thesis by (intro early) (simp_all add: main_def)
      next
        case (Inr a)
        note ld = this
        show ?thesis
        proof (cases "ListS3Files w (bucketName cfg)")
          case (Inl err)
          with ok pf cf ld show ?thesis by (intro early) (simp_all add: main_def)
        next
          case (Inr ks)
          note ls = this
          obtain r st where wk: "Walk sep w (localDirectory cfg)
              (walkFn sep w (bucketName cfg) (localDirectory cfg) (s3FileMap_loop ks Map.empty))
              \<lparr>archived = a, trace = []\<rparr> = (r, st)"
            by (cases "Walk sep w (localDirectory cfg)
              (walkFn sep w (bucketName cfg) (localDirectory cfg) (s3FileMap_loop ks Map.empty))
              \<lparr>archived = a, trace = []\<rparr>")
          show ?thesis
          proof (cases r)
            case None
            show ?thesis
              by (rule saved [of f a ks st])
                 (use ok pf cf ld ls wk None in \<open>simp_all add: main_def split: prod.splits\<close>)
          next
            case (Some e)
            show ?thesis
              by (rule aborted [of f a ks e st])
                 (use ok pf cf ld ls wk Some in \<open>simp_all add: main_def\<close>)
          qed
        qed
      qed
    qed
  qed
qed

lemma Walk_run_visits:
  "Walk sep w root fn st = run_visits fn (visits sep root (tree w root)) st"
  by (simp add: Walk_def walk_run_visits)

lemma Walk_failed_upload:
  assumes "Walk sep w root (walkFn sep w b d m) \<lparr>archived = a, trace = []\<rparr> = (r, st)"
    and "Upload p k b' (Some e) \<in> set (trace st)"
  shows "r = Some e \<and> k \<notin> set (elems (Files (archived st)))"
proof -
  from assms(1) have "run_visits (walkFn sep w b d m) (visits sep root (tree w root))
      \<lparr>archived = a, trace = []\<rparr> = (r, st)"
    by (simp add: Walk_run_visits)
  from failed_upload_last [OF this] assms(2) show ?thesis by simp
qed

lemma Walk_written:
  assumes "Walk sep w root (walkFn sep w b d m) \<lparr>archived = a, trace = []\<rparr> = (r, st)"
  shows "written (trace st) = []"
proof -
  from assms(1) have "run_visits (walkFn sep w b d m) (visits sep root (tree w root))
      \<lparr>archived = a, trace = []\<rparr> = (r, st)"
    by (simp add: Walk_run_visits)
  from written_unchanged [OF this] show ?thesis by simp
qed

lemma archivePath_Inr: "archivePath sep cfg w = Inr f \<Longrightarrow> f = archiveJSON sep cfg"
  by (auto simp: archivePath_def archiveJSON_def split: if_splits option.splits)

subsection \<open>A second run\<close>

text \<open>After a walk that returned no error, every visited file's key is listed or archived.\<close>

lemma completed_walk_covers:
  assumes "run_visits (walkFn sep w b d m) vs st = (None, st')"
    and "(path, info, err) \<in> set vs"
  shows "err = None \<and> (\<exists>fi. info = Some fi \<and>
           (IsDir fi \<or> lookup m (s3KeyOf sep d path)
            \<or> s3KeyOf sep d path \<in> set (elems (Files (archived st')))))"
  using assms
proof (induction vs arbitrary: st)
  case Nil
  then show ?case by simp
next
  case (Cons v vs)
  obtain p i e where v: "v = (p, i, e)" by (cases v)
  obtain r1 s1 where f: "walkFn sep w b d m p i e st = (r1, s1)"
    by (cases "walkFn sep w b d m p i e st")
  from Cons.prems(1) v f have r1: "r1 = None" and run: "run_visits (walkFn sep w b d m) vs s1 = (None, st')"
    by (auto split: option.splits)
  from archived_grows [OF run] have mono: "set (elems (Files (archived s1))) \<subseteq> set (elems (Files (archived st')))"
    by auto
  show ?case
  proof (cases "(path, info, err) = v")
    case False
    with Cons.prems(2) have "(path, info, err) \<in> set vs" by simp
    from Cons.IH [OF run this] show ?thesis .
  next
    case True
    with v have eq: "path = p" "info = i" "err = e" by simp_all
    from f show ?thesis
    proof (cases rule: walkFn_step)
      case (sent fi)
      with mono eq show ?thesis by auto
    next
      case (known fi)
      with mono eq show ?thesis by auto
    qed (use r1 eq in auto)
  qed
qed

text \<open>When every visited file's key is listed or archived, the walk uploads nothing.\<close>

lemma covered_walk_skips:
  assumes "\<forall>(path, info, err) \<in> set vs. err = None \<and> (\<exists>fi. info = Some fi \<and>
           (IsDir fi \<or> lookup m (s3KeyOf sep d path)
            \<or> s3KeyOf sep d path \<in> set (elems (Files (archived st)))))"
  shows "\<exists>st'. run_visits (walkFn sep w b d m) vs st = (None, st')
           \<and> archived st' = archived st \<and> attempted (trace st') = attempted (trace st)"
  using assms
proof (induction vs arbitrary: st)
  case Nil
  then show ?case by simp
next
  case (Cons v vs)
  obtain p i e where v: "v = (p, i, e)" by (cases v)
  from Cons.prems v obtain fi where e: "e = None" and i: "i = Some fi"
    and c: "IsDir fi \<or> lookup m (s3KeyOf sep d p)
            \<or> s3KeyOf sep d p \<in> set (elems (Files (archived st)))"
    by auto
  obtain r1 s1 where f: "walkFn sep w b d m p i e st = (r1, s1)"
    by (cases "walkFn sep w b d m p i e st")
  from f have s1: "r1 = None \<and> archived s1 = archived st \<and> attempted (trace s1) = attempted (trace st)"
    by (cases rule: walkFn_step) (use e i c in auto)
  have "\<forall>(path, info, err) \<in> set vs. err = None \<and> (\<exists>fi. info = Some fi \<and>
           (IsDir fi \<or> lookup m (s3KeyOf sep d path)
            \<or> s3KeyOf sep d path \<in> set (elems (Files (archived s1)))))"
    using Cons.prems s1 by simp
  from Cons.IH [OF this] obtain st' where "run_visits (walkFn sep w b d m) vs s1 = (None, st')"
    "archived st' = archived s1" "attempted (trace st') = attempted (trace s1)"
    by blast
  with v f s1 show ?case by simp
qed

subsection \<open>The example of a next world\<close>

lemma next_world_simps [simp]:
  "stat (next_world sep cfg w) = stat w"
  "mkdirAll (next_world sep cfg w) = mkdirAll w"
  "loadDefaultConfig (next_world sep cfg w) = loadDefaultConfig w"
  "writeFile (next_world sep cfg w) = writeFile w"
  "tree (next_world sep cfg w) = tree w"
  "openFile (next_world sep cfg w) = openFile w"
  "putObject (next_world sep cfg w) = putObject w"
  "readFile (next_world sep cfg w) = disk (main sep cfg w)"
  by (simp_all add: next_world_def Let_def)

lemma ListS3Files_next_world:
  "ListS3Files (next_world sep cfg w) (bucketName cfg) =
     (case ListS3Files w (bucketName cfg) of
        Inl e \<Rightarrow> Inl e
      | Inr ks \<Rightarrow> Inr (ks @ uploaded (events (main sep cfg w))))"
  by (simp add: ListS3Files_def next_world_def Let_def ListS3Files_loop_append)

subsection \<open>The example environments, evaluated\<close>

lemma demo_events:
  "events (main (CHR ''/'') demo_config demo_world) =
     [SkipInS3 ''a.txt'', Upload ''data/lnk'' ''lnk'' ''bucket'' None,
      Upload ''data/sub/b.txt'' ''sub/b.txt'' ''bucket'' None,
      Write ''archives/data.json''
        (JSONText (JObject [(''files'', JArray [JString ''lnk'', JString ''sub/b.txt''])])) None]"
  by code_simp

lemma demo_status: "status (main (CHR ''/'') demo_config demo_world) = Success"
  by code_simp

lemma demo_listing: "ListS3Files demo_world (bucketName demo_config) = Inr [''a.txt'']"
  by code_simp

lemma next_demo_listing:
  "ListS3Files (next_world (CHR ''/'') demo_config demo_world) (bucketName demo_config)
     = Inr [''a.txt'', ''lnk'', ''sub/b.txt'']"
  by code_simp

lemma flaky_events:
  "events (main (CHR ''/'') demo_config flaky_world) =
     [SkipInS3 ''a.txt'', Upload ''data/lnk'' ''lnk'' ''bucket'' None,
      Upload ''data/sub/b.txt'' ''sub/b.txt'' ''bucket''
        (Some (UploadFailed ''sub/b.txt'' (BackendError ''slow down'')))]"
  by code_simp

lemma flaky_walk:
  "Walk (CHR ''/'') flaky_world ''data''
      (walkFn (CHR ''/'') flaky_world ''bucket'' ''data'' (s3FileMap_loop [''a.txt''] Map.empty))
      \<lparr>archived = \<lparr>Files = Some []\<rparr>, trace = []\<rparr>
   = (Some (UploadFailed ''sub/b.txt'' (BackendError ''slow down'')),
      \<lparr>archived = \<lparr>Files = Some [''lnk'']\<rparr>,
       trace = [SkipInS3 ''a.txt'', Upload ''data/lnk'' ''lnk'' ''bucket'' None,
                Upload ''data/sub/b.txt'' ''sub/b.txt'' ''bucket''
                  (Some (UploadFailed ''sub/b.txt'' (BackendError ''slow down'')))]\<rparr>)"
  by code_simp

lemma broken_walk:
  "walk (CHR ''/'') (walkFn (CHR ''/'') broken_world (bucketName demo_config)
        (localDirectory demo_config) (s3FileMap_loop [''a.txt''] Map.empty))
      (localDirectory demo_config) (tree broken_world (localDirectory demo_config))
      \<lparr>archived = \<lparr>Files = Some []\<rparr>, trace = []\<rparr>
   = (Some ErrPermission, \<lparr>archived = \<lparr>Files = Some []\<rparr>, trace = [SkipInS3 ''a.txt'']\<rparr>)"
  by code_simp

lemma broken_stages:
  "bucketName demo_config \<noteq> [] \<and> localDirectory demo_config \<noteq> []
   \<and> archivePath (CHR ''/'') demo_config broken_world = Inr ''archives/data.json''
   \<and> loadDefaultConfig broken_world (credFile demo_config) (region demo_config) = None
   \<and> LoadArchivedFiles broken_world ''archives/data.json'' = Inr \<lparr>Files = Some []\<rparr>
   \<and> ListS3Files broken_world (bucketName demo_config) = Inr [''a.txt'']"
  by code_simp

subsection \<open>Values that decode into the key list\<close>

lemma decode_array_fits:
  "list_all string_or_null js \<Longrightarrow> \<exists>ss. decode_array backing js = Some ss"
proof (induction js arbitrary: backing)
  case Nil
  then show ?case by simp
next
  case (Cons j js)
  then obtain ss where "decode_array (tl backing) js = Some ss" by auto
  with Cons.prems show ?case by (cases j) auto
qed

lemma decode_array_fresh:
  "list_all string_or_null js \<Longrightarrow> decode_array [] js = Some (map element js)"
proof (induction js)
  case Nil
  then show ?case by simp
next
  case (Cons j js)
  then show ?case by (cases j) auto
qed

lemma decode_array_None:
  "(decode_array backing js = None) = (\<not> list_all string_or_null js)"
proof
  assume n: "decode_array backing js = None"
  show "\<not> list_all string_or_null js"
  proof
    assume "list_all string_or_null js"
    from decode_array_fits [OF this, of backing] n show False by simp
  qed
next
  assume "\<not> list_all string_or_null js"
  then obtain x where x: "x \<in> set js" "\<not> string_or_null x"
    by (auto simp: list_all_iff)
  then have "x \<noteq> JNull" "\<forall>s. x \<noteq> JString s" by auto
  from decode_array_bad [OF x(1) this] show "decode_array backing js = None" .
qed

lemma decode_files_None: "(decode_files st v = None) = (\<not> fits_files v)"
proof (cases st)
  case (Pair cur stale)
  show ?thesis
  proof (cases v)
    case (JArray js)
    show ?thesis
    proof (cases js)
      case Nil
      with Pair JArray show ?thesis by simp
    next
      case (Cons j js')
      with Pair JArray decode_array_None [of "elems cur @ stale" "j # js'"] show ?thesis
        by (cases "decode_array (elems cur @ stale) (j # js')")
           (simp_all del: decode_array.simps)
    qed
  qed (use Pair in auto)
qed

lemma decode_object_None:
  "(decode_object st ms = None) = (\<exists>(k, v) \<in> set ms. matchesFiles k \<and> \<not> fits_files v)"
proof (induction ms arbitrary: st)
  case Nil
  then show ?case by simp
next
  case (Cons m ms)
  obtain k v where m: "m = (k, v)" by (cases m)
  show ?case
  proof (cases "matchesFiles k")
    case False
    with m Cons.IH [of st] show ?thesis by simp
  next
    case True
    show ?thesis
    proof (cases "decode_files st v")
      case None
      with True m decode_files_None [of st v] show ?thesis by simp
    next
      case (Some st1)
      with decode_files_None [of st v] have "fits_files v" by simp
      with True m Some Cons.IH [of st1] show ?thesis by simp
    qed
  qed
qed

subsection \<open>The entries of the tree in a walk\<close>

text \<open>The visits of a walk are the entries of the tree.\<close>

lemma visits_names_member:
  "(name, child) \<in> set names \<Longrightarrow>
     set (visits sep (Join sep [path, name]) child) \<subseteq> set (visits_names sep path names)"
  by (induction names) auto

lemma entry_at_visits:
  "entry_at sep path node p n \<Longrightarrow> n = File k \<Longrightarrow>
     (p, Some \<lparr>Mode = ModeFile k\<rparr>, None) \<in> set (visits sep path node)"
proof (induction rule: entry_at.induct)
  case (here sep path node)
  then show ?case by simp
next
  case (below name child names sep path p n)
  with visits_names_member [OF below.hyps(1), of sep path] show ?case by auto
qed

lemma entry_at_Cons:
  assumes "entry_at sep path (Dir names) p (File k)"
  shows "entry_at sep path (Dir (x # names)) p (File k)"
  using assms
proof (cases rule: entry_at.cases)
  case (below name child)
  from below(1) have "(name, child) \<in> set (x # names)" by simp
  from entry_at.below [OF this below(2)] show ?thesis .
qed

lemma visits_entry_at:
  "(p, Some fi, None) \<in> set (visits sep path node) \<Longrightarrow> \<not> IsDir fi \<Longrightarrow>
     \<exists>k. fi = \<lparr>Mode = ModeFile k\<rparr> \<and> entry_at sep path node p (File k)"
  "(p, Some fi, None) \<in> set (visits_names sep path names) \<Longrightarrow> \<not> IsDir fi \<Longrightarrow>
     \<exists>k. fi = \<lparr>Mode = ModeFile k\<rparr> \<and> entry_at sep path (Dir names) p (File k)"
proof (induction sep path node and sep path names rule: visits_visits_names.induct)
  case (1 sep path err)
  then show ?case by simp
next
  case (2 sep path k)
  then show ?case by (auto intro: entry_at.here)
next
  case (3 sep path err)
  then show ?case by simp
next
  case (4 sep path names)
  then show ?case by (auto simp: dirInfo_def IsDir_def)
next
  case (5 sep path)
  then show ?case by simp
next
  case (6 sep path name node names)
  from "6.prems"(1) consider
    (a) "(p, Some fi, None) \<in> set (visits sep (Join sep [path, name]) node)"
    | (b) "(p, Some fi, None) \<in> set (visits_names sep path names)"
    by auto
  then show ?case
  proof cases
    case a
    from "6.IH"(1) [OF a "6.prems"(2)] obtain k where
      "fi = \<lparr>Mode = ModeFile k\<rparr>" "entry_at sep (Join sep [path, name]) node p (File k)"
      by blast
    then show ?thesis
      by (auto intro: entry_at.below [of name node])
  next
    case b
    from "6.IH"(2) [OF b "6.prems"(2)] obtain k where
      k: "fi = \<lparr>Mode = ModeFile k\<rparr>" "entry_at sep path (Dir names) p (File k)"
      by blast
    from entry_at_Cons [OF k(2)]
    have "entry_at sep path (Dir ((name, node) # names)) p (File k)" .
    with k(1) show ?thesis by blast
  qed
qed

text \<open>A walk only adds to the trace.\<close>

lemma trace_grows:
  assumes "run_visits (walkFn sep w b d m) vs st = (r, st')"
  shows "set (trace st) \<subseteq> set (trace st')"
proof (rule run_visits_invariant [OF assms, where P = "\<lambda>s. set (trace st) \<subseteq> set (trace s)"])
  fix path info err s r s'
  assume P: "set (trace st) \<subseteq> set (trace s)"
    and f: "walkFn sep w b d m path info err s = (r, s')"
  from f show "set (trace st) \<subseteq> set (trace s')"
    by (cases rule: walkFn_step) (use P in auto)
qed simp

text \<open>In a walk that returned no error every visited file was skipped or uploaded.\<close>

lemma completed_walk_decides:
  assumes "run_visits (walkFn sep w b d m) vs st = (None, st')"
    and "(p, Some fi, None) \<in> set vs" and "\<not> IsDir fi"
  shows "SkipInS3 (s3KeyOf sep d p) \<in> set (trace st')
         \<or> SkipArchived (s3KeyOf sep d p) \<in> set (trace st')
         \<or> Upload p (s3KeyOf sep d p) b None \<in> set (trace st')"
  using assms(1,2)
proof (induction vs arbitrary: st)
  case Nil
  then show ?case by simp
next
  case (Cons v vs)
  obtain q i e where v: "v = (q, i, e)" by (cases v)
  obtain r1 s1 where f: "walkFn sep w b d m q i e st = (r1, s1)"
    by (cases "walkFn sep w b d m q i e st")
  from Cons.prems(1) v f have r1: "r1 = None"
    and run: "run_visits (walkFn sep w b d m) vs s1 = (None, st')"
    by (auto split: option.splits)
  show ?case
  proof (cases "(p, Some fi, None) = v")
    case False
    with Cons.prems(2) have "(p, Some fi, None) \<in> set vs" by simp
    from Cons.IH [OF run this] show ?thesis .
  next
    case True
    with v have eq: "q = p" "i = Some fi" "e = None" by simp_all
    from f have "SkipInS3 (s3KeyOf sep d p) \<in> set (trace s1)
         \<or> SkipArchived (s3KeyOf sep d p) \<in> set (trace s1)
         \<or> Upload p (s3KeyOf sep d p) b None \<in> set (trace s1)"
      by (cases rule: walkFn_step) (use r1 eq assms(3) in auto)
    with trace_grows [OF run] show ?thesis by blast
  qed
qed

lemma device_events:
  "events (main (CHR ''/'') demo_config device_world) =
     [Upload ''data/fifo'' ''fifo'' ''bucket'' None, Upload ''data/tty'' ''tty'' ''bucket'' None,
      Write ''archives/data.json''
        (JSONText (JObject [(''files'', JArray [JString ''fifo'', JString ''tty''])])) None]"
  by code_simp

lemma device_status: "status (main (CHR ''/'') demo_config device_world) = Success"
  by code_simp

subsection \<open>The run after a failed run\<close>

text \<open>The keys of the events of a trace.\<close>

lemma uploaded_iff: "k \<in> set (uploaded evs) = (\<exists>p b. Upload p k b None \<in> set evs)"
  by (induction evs rule: uploaded.induct) auto

lemma attempted_iff: "k \<in> set (attempted evs) = (\<exists>p b r. Upload p k b r \<in> set evs)"
  by (induction evs rule: attempted.induct) auto

lemma uploaded_attempted: "set (uploaded evs) \<subseteq> set (attempted evs)"
  by (simp add: subset_iff uploaded_iff attempted_iff) blast

text \<open>A run never uploads a key its listing of the bucket holds.\<close>

lemma main_uploads_not_listed:
  assumes "ListS3Files w (bucketName cfg) = Inr ks" and "k \<in> set ks"
  shows "k \<notin> set (attempted (events (main sep cfg w)))"
proof -
  have *: "\<And>e st a' . Walk sep w (localDirectory cfg)
         (walkFn sep w (bucketName cfg) (localDirectory cfg) (s3FileMap_loop ks Map.empty))
         \<lparr>archived = a', trace = []\<rparr> = (e, st) \<Longrightarrow> k \<notin> set (attempted (trace st))"
  proof -
    fix e st a'
    assume "Walk sep w (localDirectory cfg)
         (walkFn sep w (bucketName cfg) (localDirectory cfg) (s3FileMap_loop ks Map.empty))
         \<lparr>archived = a', trace = []\<rparr> = (e, st)"
    then have "run_visits (walkFn sep w (bucketName cfg) (localDirectory cfg)
        (s3FileMap_loop ks Map.empty)) (visits sep (localDirectory cfg) (tree w (localDirectory cfg)))
        \<lparr>archived = a', trace = []\<rparr> = (e, st)"
      by (simp add: Walk_run_visits)
    from uploads_not_listed [OF this] assms(2) show "k \<notin> set (attempted (trace st))"
      by (auto simp: attempted_iff lookup_s3FileMap)
  qed
  show ?thesis
  proof (cases rule: main_cases [of sep cfg w])
    case early
    then show ?thesis by simp
  next
    case (aborted f a ks' e st)
    with assms(1) * [of a "Some e" st] show ?thesis by simp
  next
    case (saved f a ks' st)
    with assms(1) * [of a None st] show ?thesis by simp
  qed
qed

text \<open>Every upload of a walk is for the key of its path.\<close>

lemma uploads_keyed:
  assumes "run_visits (walkFn sep w b d m) vs st = (r, st')"
    and "\<forall>p k b' r'. Upload p k b' r' \<in> set (trace st) \<longrightarrow> k = s3KeyOf sep d p"
  shows "\<forall>p k b' r'. Upload p k b' r' \<in> set (trace st') \<longrightarrow> k = s3KeyOf sep d p"
proof (rule run_visits_invariant [OF assms(1), where P = "\<lambda>s. \<forall>p k b' r'. Upload p k b' r' \<in> set (trace s) \<longrightarrow> k = s3KeyOf sep d p"])
  show "\<forall>p k b' r'. Upload p k b' r' \<in> set (trace st) \<longrightarrow> k = s3KeyOf sep d p"
    by (rule assms(2))
next
  fix path info err s r s'
  assume P: "\<forall>p k b' r'. Upload p k b' r' \<in> set (trace s) \<longrightarrow> k = s3KeyOf sep d p"
    and f: "walkFn sep w b d m path info err s = (r, s')"
  from f show "\<forall>p k b' r'. Upload p k b' r' \<in> set (trace s') \<longrightarrow> k = s3KeyOf sep d p"
    by (cases rule: walkFn_step) (use P in auto)
qed

text \<open>
  A walk that completes uploads the key of every file that its listing and the manifest
  it loaded do not hold.
\<close>

lemma completed_walk_uploads:
  assumes "run_visits (walkFn sep w b d m) vs \<lparr>archived = a, trace = []\<rparr> = (None, st)"
    and "(p, Some fi, None) \<in> set vs" and "\<not> IsDir fi"
    and "\<not> lookup m (s3KeyOf sep d p)" and "s3KeyOf sep d p \<notin> set (elems (Files a))"
  shows "s3KeyOf sep d p \<in> set (uploaded (trace st))"
proof -
  from completed_walk_covers [OF assms(1,2)] assms(3,4)
  have "s3KeyOf sep d p \<in> set (elems (Files (archived st)))" by auto
  with archived_grows [OF assms(1)] assms(5) show ?thesis by auto
qed

text \<open>The example of a failed run and the run after it.\<close>

lemma after_flaky_events:
  "events (main (CHR ''/'') demo_config after_flaky_world) =
     [SkipInS3 ''a.txt'', SkipInS3 ''lnk'',
      Upload ''data/sub/b.txt'' ''sub/b.txt'' ''bucket'' None,
      Write ''archives/data.json''
        (JSONText (JObject [(''files'', JArray [JString ''sub/b.txt''])])) None]"
  by code_simp

lemma flaky_status:
  "status (main (CHR ''/'') demo_config flaky_world)
     = FatalWalk (UploadFailed ''sub/b.txt'' (BackendError ''slow down''))"
  by code_simp

lemma after_flaky_listing:
  "ListS3Files after_flaky_world (bucketName demo_config) = Inr [''a.txt'', ''lnk'']"
  by code_simp

text \<open>
  A key a run tried to upload is the key of a file of the tree and was not in the manifest the
  run loaded.
\<close>

lemma attempted_key_origin:
  assumes "run_visits (walkFn sep w b d m) vs \<lparr>archived = a, trace = []\<rparr> = (r, st)"
    and "k \<in> set (attempted (trace st))"
  shows "k \<notin> set (elems (Files a))
         \<and> (\<exists>p fi. (p, Some fi, None) \<in> set vs \<and> \<not> IsDir fi \<and> k = s3KeyOf sep d p)"
proof -
  from assms(2) obtain p b' r' where u: "Upload p k b' r' \<in> set (trace st)"
    by (auto simp: attempted_iff)
  from uploads_not_archived [OF assms(1), of "set (elems (Files a))"] u
  have 1: "k \<notin> set (elems (Files a))" by auto
  from uploads_keyed [OF assms(1)] u have 2: "k = s3KeyOf sep d p" by auto
  from uploads_are_visited_files [OF assms(1)] u
  obtain fi where "(p, Some fi, None) \<in> set vs" "\<not> IsDir fi" by simp blast
  with 1 2 show ?thesis by blast
qed

text \<open>
  After a run that died in its walk, a run over the same tree whose walk completes
  uploads every key the first run tried that the bucket does not list.
\<close>

lemma retried_after_abort:
  assumes "status (main sep cfg w) = FatalWalk e"
    and "k \<in> set (attempted (events (main sep cfg w)))"
    and "tree w2 (localDirectory cfg) = tree w (localDirectory cfg)"
    and "readFile w2 = readFile w"
    and "ListS3Files w2 (bucketName cfg) = Inr ks2" and "k \<notin> set ks2"
    and "status (main sep cfg w2) = Success \<or> (\<exists>e2. status (main sep cfg w2) = FatalSave e2)"
  shows "k \<in> set (uploaded (events (main sep cfg w2)))"
proof -
  let ?d = "localDirectory cfg" and ?b = "bucketName cfg"
  let ?vs = "visits sep ?d (tree w ?d)"
  obtain a p fi where a: "LoadArchivedFiles w (archiveJSON sep cfg) = Inr a"
    and k: "k \<notin> set (elems (Files a))"
    and v: "(p, Some fi, None) \<in> set ?vs" "\<not> IsDir fi" "k = s3KeyOf sep ?d p"
  proof (cases rule: main_cases [of sep cfg w])
    case early
    with assms(2) show ?thesis by simp
  next
    case (aborted f a ks e1 st)
    from aborted(7) have run: "run_visits (walkFn sep w ?b ?d (s3FileMap_loop ks Map.empty)) ?vs
        \<lparr>archived = a, trace = []\<rparr> = (Some e1, st)"
      by (simp add: Walk_run_visits)
    from aborted(8) assms(2) have "k \<in> set (attempted (trace st))" by simp
    from attempted_key_origin [OF run this] aborted(5) archivePath_Inr [OF aborted(3)] that
    show ?thesis by blast
  next
    case (saved f a ks st)
    with assms(1) show ?thesis by (simp split: option.splits)
  qed
  show ?thesis
  proof (cases rule: main_cases [of sep cfg w2])
    case early
    with assms(7) show ?thesis by auto
  next
    case (aborted f a2 ks e1 st)
    with assms(7) show ?thesis by auto
  next
    case (saved f a2 ks st)
    from saved(7) assms(3) have run: "run_visits (walkFn sep w2 ?b ?d (s3FileMap_loop ks Map.empty)) ?vs
        \<lparr>archived = a2, trace = []\<rparr> = (None, st)"
      by (simp add: Walk_run_visits)
    from saved(5) archivePath_Inr [OF saved(3)] a assms(4) have "a2 = a"
      by (simp add: LoadArchivedFiles_def)
    with k have k2: "k \<notin> set (elems (Files a2))" by simp
    from saved(6) assms(5,6) have "\<not> lookup (s3FileMap_loop ks Map.empty) k"
      by (simp add: lookup_s3FileMap)
    from completed_walk_uploads [OF run v(1,2)] this k2 v(3)
    have "k \<in> set (uploaded (trace st))" by simp
    with saved(8) show ?thesis by simp
  qed
qed

text \<open>A run that dies in its walk leaves the files as they were.\<close>

lemma aborted_walk_disk:
  assumes "status (main sep cfg w) = FatalWalk e"
  shows "disk (main sep cfg w) = readFile w"
proof (cases rule: main_cases [of sep cfg w])
  case early
  then show ?thesis by simp
next
  case (aborted f a ks e1 st)
  then show ?thesis by simp
next
  case (saved f a ks st)
  with assms show ?thesis by (simp split: option.splits)
qed

lemma flaky_files: "readFile after_flaky_world = readFile flaky_world"
  "readFile demo_world = readFile flaky_world"
  "tree after_flaky_world = tree flaky_world" "tree demo_world = tree flaky_world"
  by (simp_all add: after_flaky_world_def flaky_world_def)

lemma after_flaky_status: "status (main (CHR ''/'') demo_config after_flaky_world) = Success"
  by code_simp

subsection \<open>Runs one after another\<close>

text \<open>The stored manifest is a matter of the files alone.\<close>

lemma LoadArchivedFiles_readFile:
  "readFile w' = readFile w \<Longrightarrow> LoadArchivedFiles w' f = LoadArchivedFiles w f"
  by (simp add: LoadArchivedFiles_def)

lemma stored_keys_readFile:
  "readFile w' = readFile w \<Longrightarrow> stored_keys sep cfg w' = stored_keys sep cfg w"
  by (simp add: stored_keys_def LoadArchivedFiles_def)

lemma valid_manifest:
  assumes "\<forall>k \<in> set (elems (Files a)). toValidUTF8 k = k"
  shows "\<lparr>Files = map_option (map toValidUTF8) (Files a)\<rparr> = a"
proof (cases "Files a")
  case None
  then show ?thesis by simp
next
  case (Some ks)
  with assms have "map toValidUTF8 ks = ks" by (simp add: map_idI)
  with Some show ?thesis by simp
qed

text \<open>What the files hold after a run, by the way the run ended.\<close>

lemma disk_cases:
  obtains
    (unchanged) "disk (main sep cfg w) = readFile w" "status (main sep cfg w) \<noteq> Success"
  | (truncated) e where "status (main sep cfg w) = FatalSave e"
      "disk (main sep cfg w) = (readFile w)(archiveJSON sep cfg := Inr NotJSON)"
  | (replaced) a ks st where "status (main sep cfg w) = Success"
      "LoadArchivedFiles w (archiveJSON sep cfg) = Inr a"
      "ListS3Files w (bucketName cfg) = Inr ks"
      "run_visits (walkFn sep w (bucketName cfg) (localDirectory cfg) (s3FileMap_loop ks Map.empty))
         (visits sep (localDirectory cfg) (tree w (localDirectory cfg)))
         \<lparr>archived = a, trace = []\<rparr> = (None, st)"
      "events (main sep cfg w)
         = trace st @ [Write (archiveJSON sep cfg) (MarshalIndent (archived st)) None]"
      "disk (main sep cfg w)
         = (readFile w)(archiveJSON sep cfg := Inr (MarshalIndent (archived st)))"
proof (cases rule: main_cases [of sep cfg w])
  case early
  then show ?thesis by (intro unchanged)
next
  case (aborted f a ks e st)
  then show ?thesis by (intro unchanged) simp_all
next
  case (saved f a ks st)
  note s = this
  from s(3) have f: "f = archiveJSON sep cfg" by (rule archivePath_Inr)
  from s(7) have run: "run_visits (walkFn sep w (bucketName cfg) (localDirectory cfg)
         (s3FileMap_loop ks Map.empty))
         (visits sep (localDirectory cfg) (tree w (localDirectory cfg)))
         \<lparr>archived = a, trace = []\<rparr> = (None, st)"
    by (simp add: Walk_run_visits)
  show ?thesis
  proof (cases "writeFile w f")
    case None
    with s(8) f have r: "status (main sep cfg w) = Success"
      "events (main sep cfg w)
         = trace st @ [Write (archiveJSON sep cfg) (MarshalIndent (archived st)) None]"
      "disk (main sep cfg w)
         = (readFile w)(archiveJSON sep cfg := Inr (MarshalIndent (archived st)))"
      by (simp_all add: SaveArchivedFiles_def Let_def)
    from s(5) f have "LoadArchivedFiles w (archiveJSON sep cfg) = Inr a" by simp
    from replaced [OF r(1) this s(6) run r(2,3)] show ?thesis .
  next
    case (Some et)
    obtain e t where et: "et = (e, t)" by (cases et)
    show ?thesis
    proof (cases t)
      case True
      with Some et s(8) f have "status (main sep cfg w) = FatalSave e"
        "disk (main sep cfg w) = (readFile w)(archiveJSON sep cfg := Inr NotJSON)"
        by (simp_all add: SaveArchivedFiles_def Let_def)
      then show ?thesis by (rule truncated)
    next
      case False
      with Some et s(8) show ?thesis
        by (intro unchanged) (simp_all add: SaveArchivedFiles_def Let_def)
    qed
  qed
qed

text \<open>
  The keys stored after a run are free of duplicates when they were before and the
  uploaded keys are valid UTF-8.
\<close>

lemma stored_keys_distinct:
  assumes "distinct (stored_keys sep cfg w)"
    and "\<forall>k \<in> set (uploaded (events (main sep cfg w))). toValidUTF8 k = k"
    and "readFile w' = disk (main sep cfg w)"
  shows "distinct (stored_keys sep cfg w')"
proof (cases rule: disk_cases [of sep cfg w])
  case unchanged
  with assms(3) have "readFile w' = readFile w" by simp
  from stored_keys_readFile [OF this] assms(1) show ?thesis by simp
next
  case (truncated e)
  with assms(3) show ?thesis
    by (simp add: stored_keys_def LoadArchivedFiles_def)
next
  case (replaced a ks st)
  from archived_grows [OF replaced(4)] have grown:
    "elems (Files (archived st)) = elems (Files a) @ uploaded (trace st)"
    by auto
  from replaced(2) assms(1) have "distinct (elems (Files a))" by (simp add: stored_keys_def)
  with distinct_preserved [OF replaced(4)] have d: "distinct (elems (Files (archived st)))"
    by simp
  from replaced(5) assms(2) have "\<forall>k \<in> set (uploaded (trace st)). toValidUTF8 k = k" by simp
  with LoadArchivedFiles_valid [OF replaced(2)] grown
  have "\<forall>k \<in> set (elems (Files (archived st))). toValidUTF8 k = k" by auto
  from valid_manifest [OF this] replaced(6) assms(3)
  have "LoadArchivedFiles w' (archiveJSON sep cfg) = Inr (archived st)"
    by (simp add: LoadArchivedFiles_def Unmarshal_MarshalIndent)
  with d show ?thesis by (simp add: stored_keys_def)
qed

text \<open>
  After a successful run every file of the tree has its key in the listing, among the
  uploaded keys or in the stored manifest.
\<close>

lemma successful_run_covers:
  assumes "status (main sep cfg w) = Success"
    and "ListS3Files w (bucketName cfg) = Inr ks"
    and "readFile w' = disk (main sep cfg w)"
  shows "\<exists>a'. LoadArchivedFiles w' (archiveJSON sep cfg) = Inr a'
     \<and> (\<forall>(path, info, err) \<in> set (visits sep (localDirectory cfg) (tree w (localDirectory cfg))).
          err = None \<and> (\<exists>fi. info = Some fi \<and>
            (IsDir fi
             \<or> s3KeyOf sep (localDirectory cfg) path
                 \<in> set ks \<union> set (uploaded (events (main sep cfg w)))
             \<or> s3KeyOf sep (localDirectory cfg) path \<in> set (elems (Files a')))))"
proof (cases rule: disk_cases [of sep cfg w])
  case unchanged
  with assms(1) show ?thesis by simp
next
  case (truncated e)
  with assms(1) show ?thesis by simp
next
  case (replaced a ks' st)
  let ?root = "localDirectory cfg"
  let ?a' = "\<lparr>Files = map_option (map toValidUTF8) (Files (archived st))\<rparr>"
  from replaced(3) assms(2) have ks: "ks' = ks" by simp
  from archived_grows [OF replaced(4)] have grown:
    "elems (Files (archived st)) = elems (Files a) @ uploaded (trace st)"
    by auto
  note valid = LoadArchivedFiles_valid [OF replaced(2)]
  from replaced(5) have up: "uploaded (events (main sep cfg w)) = uploaded (trace st)" by simp
  from replaced(6) assms(3) have ld: "LoadArchivedFiles w' (archiveJSON sep cfg) = Inr ?a'"
    by (simp add: LoadArchivedFiles_def Unmarshal_MarshalIndent)
  have "\<forall>(path, info, err) \<in> set (visits sep ?root (tree w ?root)).
          err = None \<and> (\<exists>fi. info = Some fi \<and>
            (IsDir fi
             \<or> s3KeyOf sep ?root path \<in> set ks \<union> set (uploaded (events (main sep cfg w)))
             \<or> s3KeyOf sep ?root path \<in> set (elems (Files ?a'))))"
  proof (intro ballI, clarify)
    fix path info err
    assume "(path, info, err) \<in> set (visits sep ?root (tree w ?root))"
    from completed_walk_covers [OF replaced(4) this] obtain fi where
      e: "err = None" and i: "info = Some fi"
      and c: "IsDir fi \<or> lookup (s3FileMap_loop ks' Map.empty) (s3KeyOf sep ?root path)
            \<or> s3KeyOf sep ?root path \<in> set (elems (Files (archived st)))"
      by blast
    let ?k = "s3KeyOf sep ?root path"
    { assume "?k \<in> set (elems (Files a))"
      with valid have "toValidUTF8 ?k = ?k" "?k \<in> set (elems (Files a))" by auto
      then have "?k \<in> toValidUTF8 ` set (elems (Files a))" by (metis imageI) }
    with c ks grown up
    have "IsDir fi \<or> ?k \<in> set ks \<union> set (uploaded (events (main sep cfg w)))
          \<or> ?k \<in> set (elems (Files ?a'))"
      by (auto simp: lookup_s3FileMap elems_map_option)
    with e i show "err = None \<and> (\<exists>fi. info = Some fi \<and>
            (IsDir fi
             \<or> s3KeyOf sep ?root path \<in> set ks \<union> set (uploaded (events (main sep cfg w)))
             \<or> s3KeyOf sep ?root path \<in> set (elems (Files ?a'))))"
      by blast
  qed
  with ld show ?thesis by blast
qed

text \<open>
  A run in which every file of the tree has its key in the listing or in the manifest
  uploads nothing and, unless the write fails, leaves the stored manifest as it was.
\<close>

lemma covered_run_keeps_manifest:
  assumes "LoadArchivedFiles w (archiveJSON sep cfg) = Inr a"
    and "ListS3Files w (bucketName cfg) = Inr ks"
    and "\<forall>(path, info, err) \<in> set (visits sep (localDirectory cfg) (tree w (localDirectory cfg))).
          err = None \<and> (\<exists>fi. info = Some fi \<and>
            (IsDir fi \<or> s3KeyOf sep (localDirectory cfg) path \<in> set ks
             \<or> s3KeyOf sep (localDirectory cfg) path \<in> set (elems (Files a))))"
    and "\<forall>e. status (main sep cfg w) \<noteq> FatalSave e"
    and "readFile w' = disk (main sep cfg w)"
  shows "LoadArchivedFiles w' (archiveJSON sep cfg) = Inr a
         \<and> attempted (events (main sep cfg w)) = []"
proof -
  let ?root = "localDirectory cfg"
  let ?vs = "visits sep ?root (tree w ?root)"
  from assms(3) have cover: "\<forall>(path, info, err) \<in> set ?vs. err = None \<and> (\<exists>fi. info = Some fi \<and>
           (IsDir fi \<or> lookup (s3FileMap_loop ks Map.empty) (s3KeyOf sep ?root path)
            \<or> s3KeyOf sep ?root path
                 \<in> set (elems (Files (archived \<lparr>archived = a, trace = []\<rparr>)))))"
    by (simp add: lookup_s3FileMap)
  from covered_walk_skips [OF cover, of w "bucketName cfg"] obtain st2 where
    run2: "run_visits (walkFn sep w (bucketName cfg) ?root (s3FileMap_loop ks Map.empty)) ?vs
       \<lparr>archived = a, trace = []\<rparr> = (None, st2)"
    and arch: "archived st2 = a" and att: "attempted (trace st2) = []"
    by auto
  have att': "attempted (events (main sep cfg w)) = []"
  proof (cases rule: main_cases [of sep cfg w])
    case early
    then show ?thesis by simp
  next
    case (aborted f a1 ks1 e st)
    from aborted(3) have "f = archiveJSON sep cfg" by (rule archivePath_Inr)
    with aborted(5,6) assms(1,2) have "a1 = a" "ks1 = ks" by simp_all
    with aborted(7) run2 show ?thesis by (simp add: Walk_run_visits)
  next
    case (saved f a1 ks1 st)
    from saved(3) have "f = archiveJSON sep cfg" by (rule archivePath_Inr)
    with saved(5,6) assms(1,2) have "a1 = a" "ks1 = ks" by simp_all
    with saved(7) run2 have "st = st2" by (simp add: Walk_run_visits)
    with saved(8) att show ?thesis by simp
  qed
  have "LoadArchivedFiles w' (archiveJSON sep cfg) = Inr a"
  proof (cases rule: disk_cases [of sep cfg w])
    case unchanged
    with assms(5) have "readFile w' = readFile w" by simp
    from LoadArchivedFiles_readFile [OF this] assms(1) show ?thesis by simp
  next
    case (truncated e)
    with assms(4) show ?thesis by simp
  next
    case (replaced a1 ks1 st)
    from replaced(2,3) assms(1,2) have "a1 = a" "ks1 = ks" by simp_all
    with replaced(4) run2 arch have "archived st = a" by simp
    with replaced(6) assms(5) valid_manifest [OF LoadArchivedFiles_valid [OF assms(1)]]
    show ?thesis by (simp add: LoadArchivedFiles_def Unmarshal_MarshalIndent)
  qed
  with att' show ?thesis by simp
qed

text \<open>
  Runs one after another: the worlds \<open>ws 0\<close>, \<open>ws 1\<close>, ... over one tree, each reading the
  files as the run before left them, with listings \<open>ks i\<close> that hold the listing before
  and what the run before uploaded. After a first run that succeeds, the stored manifest
  stays as that run left it and nothing more is uploaded.
\<close>

lemma successive_runs:
  assumes first: "status (main sep cfg (ws 0)) = Success"
    and runs: "\<forall>i<n. ListS3Files (ws i) (bucketName cfg) = Inr (ks i)
               \<and> tree (ws i) (localDirectory cfg) = tree (ws 0) (localDirectory cfg)
               \<and> readFile (ws (Suc i)) = disk (main sep cfg (ws i))
               \<and> (\<forall>e. status (main sep cfg (ws i)) \<noteq> FatalSave e)"
    and bucket: "\<forall>i. Suc i < n \<longrightarrow>
        set (ks i) \<union> set (uploaded (events (main sep cfg (ws i)))) \<subseteq> set (ks (Suc i))"
    and m: "1 \<le> m" "m \<le> n"
  shows "\<exists>a. LoadArchivedFiles (ws m) (archiveJSON sep cfg) = Inr a
           \<and> LoadArchivedFiles (ws 1) (archiveJSON sep cfg) = Inr a
           \<and> (m < n \<longrightarrow> attempted (events (main sep cfg (ws m))) = [])"
proof -
  let ?d = "localDirectory cfg"
  let ?vs = "visits sep ?d (tree (ws 0) ?d)"
  let ?cov = "\<lambda>i a. \<forall>(path, info, err) \<in> set ?vs.
          err = None \<and> (\<exists>fi. info = Some fi \<and>
            (IsDir fi \<or> s3KeyOf sep ?d path \<in> set (ks i)
             \<or> s3KeyOf sep ?d path \<in> set (elems (Files a))))"
  have inv: "\<exists>a. LoadArchivedFiles (ws (Suc j)) (archiveJSON sep cfg) = Inr a
           \<and> LoadArchivedFiles (ws 1) (archiveJSON sep cfg) = Inr a
           \<and> (Suc j < n \<longrightarrow> ?cov (Suc j) a)" if "Suc j \<le> n" for j
    using that
  proof (induction j)
    case 0
    then have n0: "0 < n" by simp
    with runs have l0: "ListS3Files (ws 0) (bucketName cfg) = Inr (ks 0)"
      and r0: "readFile (ws (Suc 0)) = disk (main sep cfg (ws 0))"
      by blast+
    from successful_run_covers [OF first l0 r0] obtain a where
      a: "LoadArchivedFiles (ws (Suc 0)) (archiveJSON sep cfg) = Inr a"
      and c: "\<forall>(path, info, err) \<in> set ?vs.
          err = None \<and> (\<exists>fi. info = Some fi \<and>
            (IsDir fi
             \<or> s3KeyOf sep ?d path \<in> set (ks 0) \<union> set (uploaded (events (main sep cfg (ws 0))))
             \<or> s3KeyOf sep ?d path \<in> set (elems (Files a))))"
      by blast
    have "?cov (Suc 0) a" if "Suc 0 < n"
    proof -
      from bucket that
      have "set (ks 0) \<union> set (uploaded (events (main sep cfg (ws 0)))) \<subseteq> set (ks (Suc 0))"
        by blast
      with c show ?thesis by fast
    qed
    with a show ?case by auto
  next
    case (Suc j)
    then have lt: "Suc j < n" by simp
    with Suc.IH obtain a where
      a: "LoadArchivedFiles (ws (Suc j)) (archiveJSON sep cfg) = Inr a"
      and a1: "LoadArchivedFiles (ws 1) (archiveJSON sep cfg) = Inr a"
      and c: "?cov (Suc j) a"
      by auto
    from runs lt have l: "ListS3Files (ws (Suc j)) (bucketName cfg) = Inr (ks (Suc j))"
      and t: "tree (ws (Suc j)) ?d = tree (ws 0) ?d"
      and r: "readFile (ws (Suc (Suc j))) = disk (main sep cfg (ws (Suc j)))"
      and s: "\<forall>e. status (main sep cfg (ws (Suc j))) \<noteq> FatalSave e"
      by blast+
    from c t have c': "\<forall>(path, info, err) \<in> set (visits sep ?d (tree (ws (Suc j)) ?d)).
          err = None \<and> (\<exists>fi. info = Some fi \<and>
            (IsDir fi \<or> s3KeyOf sep ?d path \<in> set (ks (Suc j))
             \<or> s3KeyOf sep ?d path \<in> set (elems (Files a))))"
      by simp
    from covered_run_keeps_manifest [OF a l c' s r]
    have a2: "LoadArchivedFiles (ws (Suc (Suc j))) (archiveJSON sep cfg) = Inr a" by simp
    have "?cov (Suc (Suc j)) a" if "Suc (Suc j) < n"
    proof -
      from bucket that have "set (ks (Suc j)) \<subseteq> set (ks (Suc (Suc j)))" by blast
      with c show ?thesis by fast
    qed
    with a2 a1 show ?case by auto
  qed
  from m obtain j where j: "m = Suc j" by (cases m) simp_all
  with m inv [of j] obtain a where
    a: "LoadArchivedFiles (ws m) (archiveJSON sep cfg) = Inr a"
    and a1: "LoadArchivedFiles (ws 1) (archiveJSON sep cfg) = Inr a"
    and c: "m < n \<longrightarrow> ?cov m a"
    by auto
  have "attempted (events (main sep cfg (ws m))) = []" if "m < n"
  proof -
    from runs that have l: "ListS3Files (ws m) (bucketName cfg) = Inr (ks m)"
      and t: "tree (ws m) ?d = tree (ws 0) ?d"
      and r: "readFile (ws (Suc m)) = disk (main sep cfg (ws m))"
      and s: "\<forall>e. status (main sep cfg (ws m)) \<noteq> FatalSave e"
      by blast+
    from c that t have c': "\<forall>(path, info, err) \<in> set (visits sep ?d (tree (ws m) ?d)).
          err = None \<and> (\<exists>fi. info = Some fi \<and>
            (IsDir fi \<or> s3KeyOf sep ?d path \<in> set (ks m)
             \<or> s3KeyOf sep ?d path \<in> set (elems (Files a))))"
      by simp
    from covered_run_keeps_manifest [OF a l c' s r] show ?thesis by simp
  qed
  with a a1 show ?thesis by blast
qed

text \<open>The examples of successive runs.\<close>

lemma latin1_run:
  "stored_keys (CHR ''/'') demo_config latin1_world = []"
  "status (main (CHR ''/'') demo_config latin1_world) = Success"
  "uploaded (events (main (CHR ''/'') demo_config latin1_world)) = [[CHR 0xFE], [CHR 0xFF]]"
  "stored_keys (CHR ''/'') demo_config
     (latin1_world\<lparr>readFile := disk (main (CHR ''/'') demo_config latin1_world)\<rparr>)
   = [replacement, replacement]"
  by code_simp+

lemma flaky_stored:
  "stored_keys (CHR ''/'') demo_config
     (flaky_world\<lparr>readFile := disk (main (CHR ''/'') demo_config flaky_world)\<rparr>) = []"
  "stored_keys (CHR ''/'') demo_config
     (after_flaky_world\<lparr>readFile := disk (main (CHR ''/'') demo_config after_flaky_world)\<rparr>)
   = [''sub/b.txt'']"
  by code_simp+

lemma demo_stored:
  "stored_keys (CHR ''/'') demo_config demo_world = []"
  "stored_keys (CHR ''/'') demo_config (next_world (CHR ''/'') demo_config demo_world)
     = [''lnk'', ''sub/b.txt'']"
  "status (main (CHR ''/'') demo_config (next_world (CHR ''/'') demo_config demo_world)) = Success"
  by code_simp+

section \<open>The claims\<close>

subsection \<open>The decision of the reconciler\<close>

text \<open>
  Claim C1. For an entry that is not a directory the callback decides in this order: a key
  in the remote inventory is skipped; otherwise a key in the manifest is skipped;
  otherwise the file is uploaded. In a whole run, no call of \<open>UploadFile\<close> is for a key
  of the remote inventory, nor for a key of the manifest as it was loaded.
\<close>

theorem reconciler_decision_order:
  "(\<not> IsDir fi \<longrightarrow>
      walkFn sep w b d (s3FileMap_loop s3Files Map.empty) path (Some fi) None st =
        (let k = s3KeyOf sep d path
         in if k \<in> set s3Files then (None, logEvent (SkipInS3 k) st)
            else if k \<in> set (elems (Files (archived st)))
            then (None, logEvent (SkipArchived k) st)
            else (case UploadFile w path k b of
                    Some e \<Rightarrow> (Some e, logEvent (Upload path k b (Some e)) st)
                  | None \<Rightarrow>
                      (None, logEvent (Upload path k b None)
                         (st\<lparr>archived :=
                              \<lparr>Files = Some (elems (Files (archived st)) @ [k])\<rparr>\<rparr>)))))
   \<and> (ListS3Files w (bucketName cfg) = Inr s3Files
        \<and> Upload p k b' r \<in> set (events (main sep cfg w))
      \<longrightarrow> k \<notin> set s3Files)
   \<and> (archivePath sep cfg w = Inr f \<and> LoadArchivedFiles w f = Inr a
        \<and> Upload p k b' r \<in> set (events (main sep cfg w))
      \<longrightarrow> k \<notin> set (elems (Files a)))"
proof (intro conjI impI)
  assume "\<not> IsDir fi"
  then show "walkFn sep w b d (s3FileMap_loop s3Files Map.empty) path (Some fi) None st =
        (let k = s3KeyOf sep d path
         in if k \<in> set s3Files then (None, logEvent (SkipInS3 k) st)
            else if k \<in> set (elems (Files (archived st)))
            then (None, logEvent (SkipArchived k) st)
            else (case UploadFile w path k b of
                    Some e \<Rightarrow> (Some e, logEvent (Upload path k b (Some e)) st)
                  | None \<Rightarrow>
                      (None, logEvent (Upload path k b None)
                         (st\<lparr>archived :=
                              \<lparr>Files = Some (elems (Files (archived st)) @ [k])\<rparr>\<rparr>))))"
    by (simp add: walkFn_file lookup_s3FileMap)
next
  assume h: "ListS3Files w (bucketName cfg) = Inr s3Files
        \<and> Upload p k b' r \<in> set (events (main sep cfg w))"
  show "k \<notin> set s3Files"
  proof (cases rule: main_cases [of sep cfg w])
    case early
    with h show ?thesis by simp
  next
    case (aborted f a ks e st)
    from aborted(7) have "run_visits (walkFn sep w (bucketName cfg) (localDirectory cfg)
        (s3FileMap_loop ks Map.empty)) (visits sep (localDirectory cfg) (tree w (localDirectory cfg)))
        \<lparr>archived = a, trace = []\<rparr> = (Some e, st)"
      by (simp add: Walk_run_visits)
    from uploads_not_listed [OF this] have "\<forall>p k b' r'. Upload p k b' r' \<in> set (trace st) \<longrightarrow> k \<notin> set ks"
      by (simp add: lookup_s3FileMap)
    with h aborted(6,8) show ?thesis by auto
  next
    case (saved f a ks st)
    from saved(7) have "run_visits (walkFn sep w (bucketName cfg) (localDirectory cfg)
        (s3FileMap_loop ks Map.empty)) (visits sep (localDirectory cfg) (tree w (localDirectory cfg)))
        \<lparr>archived = a, trace = []\<rparr> = (None, st)"
      by (simp add: Walk_run_visits)
    from uploads_not_listed [OF this] have "\<forall>p k b' r'. Upload p k b' r' \<in> set (trace st) \<longrightarrow> k \<notin> set ks"
      by (simp add: lookup_s3FileMap)
    with h saved(6,8) show ?thesis by auto
  qed
next
  assume h: "archivePath sep cfg w = Inr f \<and> LoadArchivedFiles w f = Inr a
        \<and> Upload p k b' r \<in> set (events (main sep cfg w))"
  show "k \<notin> set (elems (Files a))"
  proof (cases rule: main_cases [of sep cfg w])
    case early
    with h show ?thesis by simp
  next
    case (aborted f' a' ks e st)
    from aborted(7) have "run_visits (walkFn sep w (bucketName cfg) (localDirectory cfg)
        (s3FileMap_loop ks Map.empty)) (visits sep (localDirectory cfg) (tree w (localDirectory cfg)))
        \<lparr>archived = a', trace = []\<rparr> = (Some e, st)"
      by (simp add: Walk_run_visits)
    from uploads_not_archived [OF this, of "set (elems (Files a'))"]
    have "\<forall>p k b' r'. Upload p k b' r' \<in> set (trace st) \<longrightarrow> k \<notin> set (elems (Files a'))"
      by simp
    with h aborted(3,5,8) show ?thesis by auto
  next
    case (saved f' a' ks st)
    from saved(7) have "run_visits (walkFn sep w (bucketName cfg) (localDirectory cfg)
        (s3FileMap_loop ks Map.empty)) (visits sep (localDirectory cfg) (tree w (localDirectory cfg)))
        \<lparr>archived = a', trace = []\<rparr> = (None, st)"
      by (simp add: Walk_run_visits)
    from uploads_not_archived [OF this, of "set (elems (Files a'))"]
    have "\<forall>p k b' r'. Upload p k b' r' \<in> set (trace st) \<longrightarrow> k \<notin> set (elems (Files a'))"
      by simp
    with h saved(3,5,8) show ?thesis by auto
  qed
qed

theorem reconciler_decision_order_witness:
  "walkFn (CHR ''/'') demo_world ''bucket'' ''data'' (s3FileMap_loop [''a.txt''] Map.empty)
      ''data/a.txt'' (Some \<lparr>Mode = ModeFile Regular\<rparr>) None
      \<lparr>archived = \<lparr>Files = Some []\<rparr>, trace = []\<rparr>
     = (None, \<lparr>archived = \<lparr>Files = Some []\<rparr>, trace = [SkipInS3 ''a.txt'']\<rparr>)
   \<and> ListS3Files demo_world (bucketName demo_config) = Inr [''a.txt'']
   \<and> Upload ''data/lnk'' ''lnk'' ''bucket'' None
        \<in> set (events (main (CHR ''/'') demo_config demo_world))
   \<and> ''lnk'' \<notin> set [''a.txt'']
   \<and> LoadArchivedFiles demo_world ''archives/data.json'' = Inr \<lparr>Files = Some []\<rparr>
   \<and> ''lnk'' \<notin> set (elems (Files \<lparr>Files = Some []\<rparr>))"
proof -
  have nd: "\<not> IsDir \<lparr>Mode = ModeFile Regular\<rparr>" by (simp add: IsDir_def)
  have key: "s3KeyOf (CHR ''/'') ''data'' ''data/a.txt'' = ''a.txt''" by code_simp
  have ls: "ListS3Files demo_world (bucketName demo_config) = Inr [''a.txt'']" by code_simp
  have ev: "Upload ''data/lnk'' ''lnk'' ''bucket'' None
        \<in> set (events (main (CHR ''/'') demo_config demo_world))"
    by (simp add: demo_events)
  have pa: "archivePath (CHR ''/'') demo_config demo_world = Inr ''archives/data.json''"
    by code_simp
  have ld: "LoadArchivedFiles demo_world ''archives/data.json'' = Inr \<lparr>Files = Some []\<rparr>"
    by code_simp
  note t = reconciler_decision_order [of "\<lparr>Mode = ModeFile Regular\<rparr>" "CHR ''/''" demo_world
      "''bucket''" "''data''" "[''a.txt'']" "''data/a.txt''"
      "\<lparr>archived = \<lparr>Files = Some []\<rparr>, trace = []\<rparr>" demo_config "''data/lnk''" "''lnk''"
      "''bucket''" None "''archives/data.json''" "\<lparr>Files = Some []\<rparr>"]
  from t nd key have 1: "walkFn (CHR ''/'') demo_world ''bucket'' ''data'' (s3FileMap_loop [''a.txt''] Map.empty)
      ''data/a.txt'' (Some \<lparr>Mode = ModeFile Regular\<rparr>) None
      \<lparr>archived = \<lparr>Files = Some []\<rparr>, trace = []\<rparr>
     = (None, \<lparr>archived = \<lparr>Files = Some []\<rparr>, trace = [SkipInS3 ''a.txt'']\<rparr>)"
    by (simp add: logEvent_def)
  from t ls ev have 2: "''lnk'' \<notin> set [''a.txt'']" by blast
  from t pa ld ev have 3: "''lnk'' \<notin> set (elems (Files \<lparr>Files = Some []\<rparr>))" by blast
  from 1 2 3 ls ev ld show ?thesis by blast
qed

subsection \<open>Running twice uploads once\<close>

text \<open>
  Claim C2. Let a first run end with success. A second run with the same configuration
  over the same local tree, whose bucket listing holds the keys of the first listing and
  the keys the first run uploaded, and which reads the files as the first run left them,
  calls \<open>UploadFile\<close> for no file.
\<close>

theorem second_run_uploads_nothing:
  assumes "status (main sep cfg w1) = Success"
    and "ListS3Files w1 (bucketName cfg) = Inr keys1"
    and "ListS3Files w2 (bucketName cfg) = Inr keys2"
    and "set keys2 = set keys1 \<union> set (uploaded (events (main sep cfg w1)))"
    and "tree w2 = tree w1"
    and "readFile w2 = disk (main sep cfg w1)"
  shows "attempted (events (main sep cfg w2)) = []"
proof (cases rule: main_cases [of sep cfg w1])
  case early
  with assms(1) show ?thesis by simp
next
  case (aborted f a ks e st)
  with assms(1) show ?thesis by simp
next
  case (saved f a ks st)
  let ?root = "localDirectory cfg"
  let ?vs = "visits sep ?root (tree w1 ?root)"
  let ?a2 = "\<lparr>Files = map_option (map toValidUTF8) (Files (archived st))\<rparr>"
  from saved(6) assms(2) have ks: "ks = keys1" by simp
  from saved(8) assms(1) have wr: "writeFile w1 f = None"
    by (auto simp: SaveArchivedFiles_def Let_def split: option.splits prod.splits)
  with saved(8) have dk: "disk (main sep cfg w1) = (readFile w1)(f := Inr (MarshalIndent (archived st)))"
    and up: "uploaded (events (main sep cfg w1)) = uploaded (trace st)"
    by (simp_all add: SaveArchivedFiles_def Let_def)
  from saved(7) have run1: "run_visits (walkFn sep w1 (bucketName cfg) ?root
      (s3FileMap_loop ks Map.empty)) ?vs \<lparr>archived = a, trace = []\<rparr> = (None, st)"
    by (simp add: Walk_run_visits)
  from archived_grows [OF run1] have grown:
    "elems (Files (archived st)) = elems (Files a) @ uploaded (trace st)"
    by auto
  note valid = LoadArchivedFiles_valid [OF saved(5)]
  have ld2: "LoadArchivedFiles w2 f = Inr ?a2"
    using assms(6) dk by (simp add: LoadArchivedFiles_def Unmarshal_MarshalIndent)
  have cover: "\<forall>(path, info, err) \<in> set ?vs. err = None \<and> (\<exists>fi. info = Some fi \<and>
           (IsDir fi \<or> lookup (s3FileMap_loop keys2 Map.empty) (s3KeyOf sep ?root path)
            \<or> s3KeyOf sep ?root path
                 \<in> set (elems (Files (archived \<lparr>archived = ?a2, trace = []\<rparr>)))))"
  proof (intro ballI, clarify)
    fix path info err
    assume "(path, info, err) \<in> set ?vs"
    from completed_walk_covers [OF run1 this] obtain fi where
      e: "err = None" and i: "info = Some fi"
      and c: "IsDir fi \<or> lookup (s3FileMap_loop ks Map.empty) (s3KeyOf sep ?root path)
            \<or> s3KeyOf sep ?root path \<in> set (elems (Files (archived st)))"
      by blast
    let ?k = "s3KeyOf sep ?root path"
    have "IsDir fi \<or> ?k \<in> set keys2 \<or> ?k \<in> toValidUTF8 ` set (elems (Files (archived st)))"
    proof -
      { assume "?k \<in> set (elems (Files (archived st)))"
        with grown have "?k \<in> set (elems (Files a)) \<or> ?k \<in> set (uploaded (trace st))" by auto
        then have "?k \<in> set keys2 \<or> ?k \<in> toValidUTF8 ` set (elems (Files (archived st)))"
        proof
          assume in_a: "?k \<in> set (elems (Files a))"
          with valid have "toValidUTF8 ?k = ?k" by blast
          moreover from in_a grown have "?k \<in> set (elems (Files (archived st)))" by simp
          ultimately show ?thesis by (metis imageI)
        next
          assume "?k \<in> set (uploaded (trace st))"
          with assms(4) up show ?thesis by simp
        qed }
      with c ks assms(4) show ?thesis by (auto simp: lookup_s3FileMap)
    qed
    with e i show "err = None \<and> (\<exists>fi. info = Some fi \<and>
           (IsDir fi \<or> lookup (s3FileMap_loop keys2 Map.empty) (s3KeyOf sep ?root path)
            \<or> s3KeyOf sep ?root path
                 \<in> set (elems (Files (archived \<lparr>archived = ?a2, trace = []\<rparr>)))))"
      by (simp add: lookup_s3FileMap elems_map_option)
  qed
  from covered_walk_skips [OF cover, of w2 "bucketName cfg"] obtain st2 where
    run2: "run_visits (walkFn sep w2 (bucketName cfg) ?root (s3FileMap_loop keys2 Map.empty)) ?vs
       \<lparr>archived = ?a2, trace = []\<rparr> = (None, st2)"
    and att: "attempted (trace st2) = []"
    by auto
  show ?thesis
  proof (cases rule: main_cases [of sep cfg w2])
    case early
    then show ?thesis by simp
  next
    case (aborted f2 a2 ks2 e2 st')
    from aborted(3) saved(3) have "f2 = f" by (auto dest: archivePath_Inr)
    with aborted(5) ld2 have "a2 = ?a2" by simp
    moreover from aborted(6) assms(3) have "ks2 = keys2" by simp
    ultimately show ?thesis using aborted(7) run2 assms(5) by (simp add: Walk_run_visits)
  next
    case (saved f2 a2 ks2 st')
    note s2 = this
    from s2(3) \<open>archivePath sep cfg w1 = Inr f\<close> have "f2 = f" by (auto dest: archivePath_Inr)
    with s2(5) ld2 have "a2 = ?a2" by simp
    moreover from s2(6) assms(3) have "ks2 = keys2" by simp
    ultimately have "st' = st2" using s2(7) run2 assms(5) by (simp add: Walk_run_visits)
    with s2(8) att show ?thesis by simp
  qed
qed

theorem second_run_uploads_nothing_witness:
  "status (main (CHR ''/'') demo_config demo_world) = Success
   \<and> uploaded (events (main (CHR ''/'') demo_config demo_world)) = [''lnk'', ''sub/b.txt'']
   \<and> attempted (events (main (CHR ''/'') demo_config
        (next_world (CHR ''/'') demo_config demo_world))) = []"
proof -
  let ?w2 = "next_world (CHR ''/'') demo_config demo_world"
  have up: "uploaded (events (main (CHR ''/'') demo_config demo_world)) = [''lnk'', ''sub/b.txt'']"
    by (simp add: demo_events)
  have k: "set [''a.txt'', ''lnk'', ''sub/b.txt'']
      = set [''a.txt''] \<union> set (uploaded (events (main (CHR ''/'') demo_config demo_world)))"
    unfolding up by auto
  have t: "tree ?w2 = tree demo_world" and d: "readFile ?w2 = disk (main (CHR ''/'') demo_config demo_world)"
    by (simp_all add: next_world_def Let_def)
  from second_run_uploads_nothing [OF demo_status demo_listing next_demo_listing k t d] demo_status up
  show ?thesis by simp
qed

subsection \<open>The manifest has no duplicates\<close>

text \<open>
  Against claim C3 as it stands. The manifest file is JSON, and \<open>json.MarshalIndent\<close>
  replaces each byte that is not valid UTF-8 by U+FFFD: a successful run over two files
  named by the bytes 0xFE and 0xFF, starting from an empty manifest, stores the same key
  twice. And the stored keys after the first run need not be those after later runs: the
  run in \<open>flaky_world\<close> dies in its walk and stores nothing, the run after it, over the
  same tree and with a bucket that lists what was there and what was uploaded, stores
  \<open>sub/b.txt\<close>.
\<close>

theorem manifest_duplicates_counterexample:
  "distinct (stored_keys (CHR ''/'') demo_config latin1_world)
   \<and> status (main (CHR ''/'') demo_config latin1_world) = Success
   \<and> uploaded (events (main (CHR ''/'') demo_config latin1_world)) = [[CHR 0xFE], [CHR 0xFF]]
   \<and> \<not> distinct (stored_keys (CHR ''/'') demo_config
         (latin1_world\<lparr>readFile := disk (main (CHR ''/'') demo_config latin1_world)\<rparr>))
   \<and> status (main (CHR ''/'') demo_config flaky_world)
       = FatalWalk (UploadFailed ''sub/b.txt'' (BackendError ''slow down''))
   \<and> set (stored_keys (CHR ''/'') demo_config
         (flaky_world\<lparr>readFile := disk (main (CHR ''/'') demo_config flaky_world)\<rparr>)) = {}
   \<and> tree after_flaky_world = tree flaky_world
   \<and> readFile after_flaky_world = disk (main (CHR ''/'') demo_config flaky_world)
   \<and> ListS3Files flaky_world (bucketName demo_config) = Inr [''a.txt'']
   \<and> uploaded (events (main (CHR ''/'') demo_config flaky_world)) = [''lnk'']
   \<and> ListS3Files after_flaky_world (bucketName demo_config) = Inr [''a.txt'', ''lnk'']
   \<and> set (stored_keys (CHR ''/'') demo_config
         (after_flaky_world\<lparr>readFile := disk (main (CHR ''/'') demo_config after_flaky_world)\<rparr>))
       = {''sub/b.txt''}"
proof -
  have l: "ListS3Files flaky_world (bucketName demo_config) = Inr [''a.txt'']" by code_simp
  have r: "readFile after_flaky_world = disk (main (CHR ''/'') demo_config flaky_world)"
    using aborted_walk_disk [OF flaky_status] by (simp add: flaky_files)
  have u: "uploaded (events (main (CHR ''/'') demo_config flaky_world)) = [''lnk'']"
    by (simp add: flaky_events)
  have n: "\<not> distinct [replacement, replacement]" by simp
  from l r u n show ?thesis
    by (simp only: latin1_run flaky_stored flaky_status flaky_files after_flaky_listing) simp
qed

text \<open>
  Claim C3, as amended. If the keys stored in the manifest file are free of duplicates
  and the keys a run uploads are valid UTF-8, the keys stored after the run are free of
  duplicates. Let runs follow one another over one local tree, each reading the files
  as the run before left them, each with a listing of the bucket that holds the listing
  before and the keys the run before uploaded, the first run ending in success and no
  later one failing to write the manifest: then the keys stored after \<open>j \<ge> 1\<close> runs are
  those stored after the first run, and no run after the first uploads anything. Within
  a run the in-memory manifest stays free of duplicates, and the callback does not touch
  the manifest for a key it already holds.
\<close>

theorem manifest_stays_duplicate_free:
  "(distinct (stored_keys sep cfg w)
      \<and> (\<forall>k \<in> set (uploaded (events (main sep cfg w))). toValidUTF8 k = k)
      \<and> readFile w' = disk (main sep cfg w)
    \<longrightarrow> distinct (stored_keys sep cfg w'))
   \<and> (status (main sep cfg (ws 0)) = Success
      \<and> (\<forall>i<n. ListS3Files (ws i) (bucketName cfg) = Inr (ks i)
               \<and> tree (ws i) (localDirectory cfg) = tree (ws 0) (localDirectory cfg)
               \<and> readFile (ws (Suc i)) = disk (main sep cfg (ws i))
               \<and> (\<forall>e. status (main sep cfg (ws i)) \<noteq> FatalSave e))
      \<and> (\<forall>i. Suc i < n \<longrightarrow>
            set (ks i) \<union> set (uploaded (events (main sep cfg (ws i)))) \<subseteq> set (ks (Suc i)))
      \<and> 1 \<le> j \<and> j \<le> n
    \<longrightarrow> stored_keys sep cfg (ws j) = stored_keys sep cfg (ws 1)
        \<and> (j < n \<longrightarrow> attempted (events (main sep cfg (ws j))) = []))
   \<and> (distinct (elems (Files a))
        \<and> Walk sep w root (walkFn sep w b d m) \<lparr>archived = a, trace = []\<rparr> = (r, st)
      \<longrightarrow> distinct (elems (Files (archived st))))
   \<and> (s3KeyOf sep d path \<in> set (elems (Files (archived s)))
      \<longrightarrow> archived (snd (walkFn sep w b d m path info err s)) = archived s)"
proof (intro conjI impI)
  assume "distinct (stored_keys sep cfg w)
      \<and> (\<forall>k \<in> set (uploaded (events (main sep cfg w))). toValidUTF8 k = k)
      \<and> readFile w' = disk (main sep cfg w)"
  then show "distinct (stored_keys sep cfg w')"
    using stored_keys_distinct [of sep cfg w w'] by blast
next
  assume h: "status (main sep cfg (ws 0)) = Success
      \<and> (\<forall>i<n. ListS3Files (ws i) (bucketName cfg) = Inr (ks i)
               \<and> tree (ws i) (localDirectory cfg) = tree (ws 0) (localDirectory cfg)
               \<and> readFile (ws (Suc i)) = disk (main sep cfg (ws i))
               \<and> (\<forall>e. status (main sep cfg (ws i)) \<noteq> FatalSave e))
      \<and> (\<forall>i. Suc i < n \<longrightarrow>
            set (ks i) \<union> set (uploaded (events (main sep cfg (ws i)))) \<subseteq> set (ks (Suc i)))
      \<and> 1 \<le> j \<and> j \<le> n"
  then have 1: "status (main sep cfg (ws 0)) = Success"
    and 2: "\<forall>i<n. ListS3Files (ws i) (bucketName cfg) = Inr (ks i)
               \<and> tree (ws i) (localDirectory cfg) = tree (ws 0) (localDirectory cfg)
               \<and> readFile (ws (Suc i)) = disk (main sep cfg (ws i))
               \<and> (\<forall>e. status (main sep cfg (ws i)) \<noteq> FatalSave e)"
    and 3: "\<forall>i. Suc i < n \<longrightarrow>
            set (ks i) \<union> set (uploaded (events (main sep cfg (ws i)))) \<subseteq> set (ks (Suc i))"
    and 4: "1 \<le> j" "j \<le> n"
    by blast+
  from successive_runs [OF 1 2 3 4] obtain a where
    "LoadArchivedFiles (ws j) (archiveJSON sep cfg) = Inr a"
    "LoadArchivedFiles (ws 1) (archiveJSON sep cfg) = Inr a"
    "j < n \<longrightarrow> attempted (events (main sep cfg (ws j))) = []"
    by blast
  then show "stored_keys sep cfg (ws j) = stored_keys sep cfg (ws 1)"
    and "j < n \<Longrightarrow> attempted (events (main sep cfg (ws j))) = []"
    by (simp_all add: stored_keys_def)
next
  assume h: "distinct (elems (Files a))
        \<and> Walk sep w root (walkFn sep w b d m) \<lparr>archived = a, trace = []\<rparr> = (r, st)"
  then have "run_visits (walkFn sep w b d m) (visits sep root (tree w root))
      \<lparr>archived = a, trace = []\<rparr> = (r, st)"
    by (simp add: Walk_run_visits)
  from distinct_preserved [OF this] h show "distinct (elems (Files (archived st)))" by simp
next
  assume h: "s3KeyOf sep d path \<in> set (elems (Files (archived s)))"
  obtain r1 s1 where f: "walkFn sep w b d m path info err s = (r1, s1)"
    by (cases "walkFn sep w b d m path info err s")
  from f have "archived s1 = archived s"
    by (cases rule: walkFn_step) (use h in auto)
  with f show "archived (snd (walkFn sep w b d m path info err s)) = archived s" by simp
qed

theorem manifest_stays_duplicate_free_witness:
  "distinct (stored_keys (CHR ''/'') demo_config demo_world)
   \<and> uploaded (events (main (CHR ''/'') demo_config demo_world)) = [''lnk'', ''sub/b.txt'']
   \<and> toValidUTF8 ''lnk'' = ''lnk'' \<and> toValidUTF8 ''sub/b.txt'' = ''sub/b.txt''
   \<and> distinct (stored_keys (CHR ''/'') demo_config (next_world (CHR ''/'') demo_config demo_world))
   \<and> status (main (CHR ''/'') demo_config demo_world) = Success
   \<and> stored_keys (CHR ''/'') demo_config
        (next_world (CHR ''/'') demo_config (next_world (CHR ''/'') demo_config demo_world))
       = [''lnk'', ''sub/b.txt'']
   \<and> attempted (events (main (CHR ''/'') demo_config
        (next_world (CHR ''/'') demo_config demo_world))) = []
   \<and> distinct (elems (Files \<lparr>Files = Some [''lnk'']\<rparr>))
   \<and> archived (snd (walkFn (CHR ''/'') demo_world ''bucket'' ''data'' Map.empty ''data/lnk''
          (Some \<lparr>Mode = ModeFile Symlink\<rparr>) None
          \<lparr>archived = \<lparr>Files = Some [''lnk'']\<rparr>, trace = []\<rparr>))
       = \<lparr>Files = Some [''lnk'']\<rparr>"
proof -
  let ?st = "\<lparr>archived = \<lparr>Files = Some [''lnk'']\<rparr>,
       trace = [SkipInS3 ''a.txt'', Upload ''data/lnk'' ''lnk'' ''bucket'' None,
                Upload ''data/sub/b.txt'' ''sub/b.txt'' ''bucket''
                  (Some (UploadFailed ''sub/b.txt'' (BackendError ''slow down'')))]\<rparr>"
  let ?w1 = "next_world (CHR ''/'') demo_config demo_world"
  let ?w2 = "next_world (CHR ''/'') demo_config ?w1"
  let ?ws = "\<lambda>i::nat. if i = 0 then demo_world else if i = 1 then ?w1 else ?w2"
  let ?ks = "\<lambda>i::nat. if i = 0 then [''a.txt''] else [''a.txt'', ''lnk'', ''sub/b.txt'']"
  have d0: "distinct (stored_keys (CHR ''/'') demo_config demo_world)"
    by (simp add: demo_stored)
  have v: "\<forall>k \<in> set (uploaded (events (main (CHR ''/'') demo_config demo_world))). toValidUTF8 k = k"
    by code_simp
  have u: "uploaded (events (main (CHR ''/'') demo_config demo_world)) = [''lnk'', ''sub/b.txt'']"
    by (simp add: demo_events)
  have tv: "toValidUTF8 ''lnk'' = ''lnk''" "toValidUTF8 ''sub/b.txt'' = ''sub/b.txt''"
    by code_simp+
  have rf: "readFile ?w1 = disk (main (CHR ''/'') demo_config demo_world)" by simp
  from manifest_stays_duplicate_free [where sep = "CHR ''/''" and cfg = demo_config
      and w = demo_world and w' = ?w1, THEN conjunct1, THEN mp, OF conjI [OF d0 conjI [OF v rf]]]
  have 1: "distinct (stored_keys (CHR ''/'') demo_config ?w1)" .
  have h1: "status (main (CHR ''/'') demo_config (?ws 0)) = Success" by (simp add: demo_status)
  have h2: "\<forall>i<2. ListS3Files (?ws i) (bucketName demo_config) = Inr (?ks i)
               \<and> tree (?ws i) (localDirectory demo_config) = tree (?ws 0) (localDirectory demo_config)
               \<and> readFile (?ws (Suc i)) = disk (main (CHR ''/'') demo_config (?ws i))
               \<and> (\<forall>e. status (main (CHR ''/'') demo_config (?ws i)) \<noteq> FatalSave e)"
  proof (intro allI impI)
    fix i :: nat
    assume "i < 2"
    then consider "i = 0" | "i = 1" by linarith
    then show "ListS3Files (?ws i) (bucketName demo_config) = Inr (?ks i)
               \<and> tree (?ws i) (localDirectory demo_config) = tree (?ws 0) (localDirectory demo_config)
               \<and> readFile (?ws (Suc i)) = disk (main (CHR ''/'') demo_config (?ws i))
               \<and> (\<forall>e. status (main (CHR ''/'') demo_config (?ws i)) \<noteq> FatalSave e)"
    proof cases
      case 1
      then show ?thesis by (simp add: demo_listing demo_status)
    next
      case 2
      then show ?thesis by (simp add: next_demo_listing demo_stored)
    qed
  qed
  have h3: "\<forall>i. Suc i < 2 \<longrightarrow>
            set (?ks i) \<union> set (uploaded (events (main (CHR ''/'') demo_config (?ws i))))
              \<subseteq> set (?ks (Suc i))"
  proof (intro allI impI)
    fix i :: nat
    assume "Suc i < 2"
    then have "i = 0" by simp
    then show "set (?ks i) \<union> set (uploaded (events (main (CHR ''/'') demo_config (?ws i))))
              \<subseteq> set (?ks (Suc i))"
      by (simp add: demo_events)
  qed
  have h4: "(1::nat) \<le> 2 \<and> (2::nat) \<le> 2" "(1::nat) \<le> 1 \<and> (1::nat) \<le> 2" by simp_all
  from manifest_stays_duplicate_free [where sep = "CHR ''/''" and cfg = demo_config
      and ws = ?ws and ks = ?ks and n = 2 and j = 2, THEN conjunct2, THEN conjunct1, THEN mp,
      OF conjI [OF h1 conjI [OF h2 conjI [OF h3 h4(1)]]]]
  have "stored_keys (CHR ''/'') demo_config (?ws 2) = stored_keys (CHR ''/'') demo_config (?ws 1)"
    by (rule conjunct1)
  then have 2: "stored_keys (CHR ''/'') demo_config ?w2 = [''lnk'', ''sub/b.txt'']"
    by (simp add: demo_stored)
  from manifest_stays_duplicate_free [where sep = "CHR ''/''" and cfg = demo_config
      and ws = ?ws and ks = ?ks and n = 2 and j = 1, THEN conjunct2, THEN conjunct1, THEN mp,
      OF conjI [OF h1 conjI [OF h2 conjI [OF h3 h4(2)]]]]
  have "(1::nat) < 2 \<longrightarrow> attempted (events (main (CHR ''/'') demo_config (?ws 1))) = []"
    by (rule conjunct2)
  then have 5: "attempted (events (main (CHR ''/'') demo_config ?w1)) = []" by simp
  have d3: "distinct (elems (Files \<lparr>Files = Some []\<rparr>))" by simp
  from manifest_stays_duplicate_free [where sep = "CHR ''/''" and w = flaky_world
      and a = "\<lparr>Files = Some []\<rparr>" and root = "''data''" and b = "''bucket''" and d = "''data''"
      and m = "s3FileMap_loop [''a.txt''] Map.empty"
      and r = "Some (UploadFailed ''sub/b.txt'' (BackendError ''slow down''))" and st = ?st,
      THEN conjunct2, THEN conjunct2, THEN conjunct1, THEN mp, OF conjI [OF d3 flaky_walk]]
  have 3: "distinct (elems (Files (archived ?st)))" .
  have k: "s3KeyOf (CHR ''/'') ''data'' ''data/lnk'' = ''lnk''" by code_simp
  from manifest_stays_duplicate_free [where sep = "CHR ''/''" and w = demo_world
      and b = "''bucket''" and d = "''data''" and m = Map.empty and path = "''data/lnk''"
      and info = "Some \<lparr>Mode = ModeFile Symlink\<rparr>" and err = None
      and s = "\<lparr>archived = \<lparr>Files = Some [''lnk'']\<rparr>, trace = []\<rparr>",
      THEN conjunct2, THEN conjunct2, THEN conjunct2, THEN mp] k
  have 4: "archived (snd (walkFn (CHR ''/'') demo_world ''bucket'' ''data'' Map.empty ''data/lnk''
          (Some \<lparr>Mode = ModeFile Symlink\<rparr>) None
          \<lparr>archived = \<lparr>Files = Some [''lnk'']\<rparr>, trace = []\<rparr>))
       = \<lparr>Files = Some [''lnk'']\<rparr>"
    by simp
  from 3 have 6: "distinct (elems (Files \<lparr>Files = Some [''lnk'']\<rparr>))" by simp
  from d0 u tv 1 2 4 5 6 demo_status show ?thesis by blast
qed

subsection \<open>The remote key under a root that is not clean\<close>

text \<open>
  Claim C4, evaluated on the code. The callback cuts the literal root off the walked path:
  for a path that is the root, a separator and a relative path the key is the relative
  path with every separator turned into \<open>/\<close>. But \<open>filepath.Walk\<close> hands out cleaned paths.
  Under the root \<open>.\<close> the file \<open>.env\<close> is walked as \<open>.env\<close> and gets the key \<open>env\<close>; under
  the root \<open>./data\<close> the file \<open>a.txt\<close> is walked as \<open>data/a.txt\<close>, keeps the root in its key
  and is uploaded although the bucket lists \<open>a.txt\<close>.
\<close>

theorem relative_key_failures:
  "s3KeyOf sep root (root @ sep # rel) = map (\<lambda>c. if c = sep then CHR ''/'' else c) rel
   \<and> Join (CHR ''/'') [''.'', ''.env''] = ''.env''
   \<and> s3KeyOf (CHR ''/'') ''.'' ''.env'' = ''env''
   \<and> events (main (CHR ''/'') (demo_config\<lparr>localDirectory := ''.''\<rparr>) demo_world)
       = [Upload ''.env'' ''env'' ''bucket'' None,
          Write ''archives/..json'' (JSONText (JObject [(''files'', JArray [JString ''env''])])) None]
   \<and> Join (CHR ''/'') [''./data'', ''a.txt''] = ''data/a.txt''
   \<and> s3KeyOf (CHR ''/'') ''./data'' ''data/a.txt'' = ''data/a.txt''
   \<and> events (main (CHR ''/'') (demo_config\<lparr>localDirectory := ''./data''\<rparr>) demo_world)
       = [Upload ''data/a.txt'' ''data/a.txt'' ''bucket'' None,
          Upload ''data/lnk'' ''data/lnk'' ''bucket'' None,
          Upload ''data/sub/b.txt'' ''data/sub/b.txt'' ''bucket'' None,
          Write ''archives/._data.json''
            (JSONText (JObject [(''files'', JArray [JString ''data/a.txt'', JString ''data/lnk'',
               JString ''data/sub/b.txt''])])) None]"
proof -
  have 1: "Join (CHR ''/'') [''.'', ''.env''] = ''.env''" by code_simp
  have 2: "s3KeyOf (CHR ''/'') ''.'' ''.env'' = ''env''" by code_simp
  have 3: "events (main (CHR ''/'') (demo_config\<lparr>localDirectory := ''.''\<rparr>) demo_world)
       = [Upload ''.env'' ''env'' ''bucket'' None,
          Write ''archives/..json'' (JSONText (JObject [(''files'', JArray [JString ''env''])])) None]"
    by code_simp
  have 4: "Join (CHR ''/'') [''./data'', ''a.txt''] = ''data/a.txt''" by code_simp
  have 5: "s3KeyOf (CHR ''/'') ''./data'' ''data/a.txt'' = ''data/a.txt''" by code_simp
  have 6: "events (main (CHR ''/'') (demo_config\<lparr>localDirectory := ''./data''\<rparr>) demo_world)
       = [Upload ''data/a.txt'' ''data/a.txt'' ''bucket'' None,
          Upload ''data/lnk'' ''data/lnk'' ''bucket'' None,
          Upload ''data/sub/b.txt'' ''data/sub/b.txt'' ''bucket'' None,
          Write ''archives/._data.json''
            (JSONText (JObject [(''files'', JArray [JString ''data/a.txt'', JString ''data/lnk'',
               JString ''data/sub/b.txt''])])) None]"
    by code_simp
  from s3KeyOf_under_root 1 2 3 4 5 6 show ?thesis by blast
qed

subsection \<open>Loading the manifest\<close>

text \<open>
  Claim C5. \<open>LoadArchivedFiles\<close> on a path where no file exists returns an empty manifest
  and no error; on a file that is not JSON it returns the syntax error; on any other read
  error it returns that error. When the load fails, \<open>main\<close> exits with the fatal load
  status, having uploaded and written nothing.
\<close>

theorem LoadArchivedFiles_cases:
  "(readFile w f = Inl e \<and> IsNotExist e \<longrightarrow> LoadArchivedFiles w f = Inr \<lparr>Files = Some []\<rparr>)
   \<and> (readFile w f = Inr NotJSON \<longrightarrow> LoadArchivedFiles w f = Inl SyntaxError)
   \<and> (readFile w f = Inl e \<and> \<not> IsNotExist e \<longrightarrow> LoadArchivedFiles w f = Inl e)
   \<and> (bucketName cfg \<noteq> [] \<and> localDirectory cfg \<noteq> [] \<and> archivePath sep cfg w = Inr f
        \<and> loadDefaultConfig w (credFile cfg) (region cfg) = None
        \<and> LoadArchivedFiles w f = Inl e
      \<longrightarrow> status (main sep cfg w) = FatalLoad e \<and> events (main sep cfg w) = []
          \<and> disk (main sep cfg w) = readFile w)"
  by (simp add: LoadArchivedFiles_def main_def)

theorem LoadArchivedFiles_cases_witness:
  "LoadArchivedFiles demo_world ''archives/data.json'' = Inr \<lparr>Files = Some []\<rparr>
   \<and> LoadArchivedFiles (demo_world\<lparr>readFile := (\<lambda>f. Inr NotJSON)\<rparr>) ''archives/data.json''
       = Inl SyntaxError
   \<and> LoadArchivedFiles (demo_world\<lparr>readFile := (\<lambda>f. Inl ErrPermission)\<rparr>) ''archives/data.json''
       = Inl ErrPermission
   \<and> status (main (CHR ''/'') demo_config (demo_world\<lparr>readFile := (\<lambda>f. Inr NotJSON)\<rparr>))
       = FatalLoad SyntaxError"
proof -
  let ?f = "''archives/data.json''"
  let ?w1 = "demo_world\<lparr>readFile := (\<lambda>f. Inr NotJSON)\<rparr>"
  let ?w2 = "demo_world\<lparr>readFile := (\<lambda>f. Inl ErrPermission)\<rparr>"
  have p: "archivePath (CHR ''/'') demo_config ?w1 = Inr ?f"
    by code_simp
  have a: "LoadArchivedFiles demo_world ?f = Inr \<lparr>Files = Some []\<rparr>"
    using LoadArchivedFiles_cases [of demo_world ?f ErrNotExist demo_config "CHR ''/''"]
    by (simp add: demo_world_def IsNotExist_def)
  have b: "LoadArchivedFiles ?w1 ?f = Inl SyntaxError"
    using LoadArchivedFiles_cases [of ?w1 ?f ErrNotExist demo_config "CHR ''/''"]
    by simp
  have c: "LoadArchivedFiles ?w2 ?f = Inl ErrPermission"
    using LoadArchivedFiles_cases [of ?w2 ?f ErrPermission demo_config "CHR ''/''"]
    by (simp add: IsNotExist_def)
  have d: "status (main (CHR ''/'') demo_config ?w1) = FatalLoad SyntaxError"
    using LoadArchivedFiles_cases [of ?w1 ?f SyntaxError demo_config "CHR ''/''"] p b
    by (simp add: demo_config_def demo_world_def)
  show ?thesis using a b c d by simp
qed

subsection \<open>A failed listing\<close>

text \<open>
  Claim C6. If a page of the bucket listing fails, \<open>ListS3Files\<close> returns the error of the
  first failing page and no keys, and the run ends with a fatal status without having
  called \<open>UploadFile\<close> or written any file: the files read as before the run.
\<close>

theorem listing_failure_aborts:
  "Inl e \<in> set (listObjectsV2 w (bucketName cfg)) \<longrightarrow>
     (\<exists>e' goods rest.
        ListS3Files w (bucketName cfg) = Inl e'
        \<and> listObjectsV2 w (bucketName cfg) = map Inr goods @ Inl e' # rest
        \<and> (bucketName cfg \<noteq> [] \<and> localDirectory cfg \<noteq> [] \<and> archivePath sep cfg w = Inr f
             \<and> loadDefaultConfig w (credFile cfg) (region cfg) = None
             \<and> LoadArchivedFiles w f = Inr a
           \<longrightarrow> status (main sep cfg w) = FatalList e'))
     \<and> status (main sep cfg w) \<noteq> Success
     \<and> events (main sep cfg w) = []
     \<and> disk (main sep cfg w) = readFile w"
proof
  assume h: "Inl e \<in> set (listObjectsV2 w (bucketName cfg))"
  from ListS3Files_loop_fails [OF h, of "[]"] obtain e' goods rest where
    l: "ListS3Files w (bucketName cfg) = Inl e'"
    and p: "listObjectsV2 w (bucketName cfg) = map Inr goods @ Inl e' # rest"
    unfolding ListS3Files_def by blast
  have st: "bucketName cfg \<noteq> [] \<and> localDirectory cfg \<noteq> [] \<and> archivePath sep cfg w = Inr f
             \<and> loadDefaultConfig w (credFile cfg) (region cfg) = None
             \<and> LoadArchivedFiles w f = Inr a
           \<longrightarrow> status (main sep cfg w) = FatalList e'"
    using l by (simp add: main_def)
  have rest: "status (main sep cfg w) \<noteq> Success \<and> events (main sep cfg w) = []
     \<and> disk (main sep cfg w) = readFile w"
  proof (cases rule: main_cases [of sep cfg w])
    case early
    then show ?thesis by simp
  next
    case (aborted f a ks e st)
    with l show ?thesis by simp
  next
    case (saved f a ks st)
    with l show ?thesis by simp
  qed
  from l p st rest show "(\<exists>e' goods rest.
        ListS3Files w (bucketName cfg) = Inl e'
        \<and> listObjectsV2 w (bucketName cfg) = map Inr goods @ Inl e' # rest
        \<and> (bucketName cfg \<noteq> [] \<and> localDirectory cfg \<noteq> [] \<and> archivePath sep cfg w = Inr f
             \<and> loadDefaultConfig w (credFile cfg) (region cfg) = None
             \<and> LoadArchivedFiles w f = Inr a
           \<longrightarrow> status (main sep cfg w) = FatalList e'))
     \<and> status (main sep cfg w) \<noteq> Success
     \<and> events (main sep cfg w) = []
     \<and> disk (main sep cfg w) = readFile w"
    by blast
qed

theorem listing_failure_aborts_witness:
  "Inl (BackendError ''timeout'')
      \<in> set (listObjectsV2 (demo_world\<lparr>listObjectsV2 := (\<lambda>b. failing_pages)\<rparr>) (bucketName demo_config))
   \<and> ListS3Files (demo_world\<lparr>listObjectsV2 := (\<lambda>b. failing_pages)\<rparr>) (bucketName demo_config)
       = Inl (BackendError ''timeout'')
   \<and> status (main (CHR ''/'') demo_config (demo_world\<lparr>listObjectsV2 := (\<lambda>b. failing_pages)\<rparr>))
       = FatalList (BackendError ''timeout'')
   \<and> events (main (CHR ''/'') demo_config (demo_world\<lparr>listObjectsV2 := (\<lambda>b. failing_pages)\<rparr>)) = []
   \<and> disk (main (CHR ''/'') demo_config (demo_world\<lparr>listObjectsV2 := (\<lambda>b. failing_pages)\<rparr>))
       = readFile demo_world"
proof -
  let ?w = "demo_world\<lparr>listObjectsV2 := (\<lambda>b. failing_pages)\<rparr>"
  have h: "Inl (BackendError ''timeout'') \<in> set (listObjectsV2 ?w (bucketName demo_config))"
    by (simp add: failing_pages_def)
  have l: "ListS3Files ?w (bucketName demo_config) = Inl (BackendError ''timeout'')"
    by (simp add: ListS3Files_def failing_pages_def)
  have pre: "bucketName demo_config \<noteq> [] \<and> localDirectory demo_config \<noteq> []
      \<and> archivePath (CHR ''/'') demo_config ?w = Inr ''archives/data.json''
      \<and> loadDefaultConfig ?w (credFile demo_config) (region demo_config) = None
      \<and> LoadArchivedFiles ?w ''archives/data.json'' = Inr \<lparr>Files = Some []\<rparr>"
    by code_simp
  from listing_failure_aborts [of "BackendError ''timeout''" ?w demo_config "CHR ''/''"
      "''archives/data.json''" "\<lparr>Files = Some []\<rparr>"] h l pre
  show ?thesis by auto
qed

subsection \<open>A failed upload\<close>

text \<open>
  Against claim C7 as it stands: the run in \<open>flaky_world\<close> uploads \<open>lnk\<close> and then dies in
  its walk, so \<open>lnk\<close> is not recorded. The next run finds \<open>lnk\<close> in its listing of the
  bucket and skips it: the key is not uploaded again.
\<close>

theorem retried_next_run_counterexample:
  "status (main (CHR ''/'') demo_config flaky_world)
     = FatalWalk (UploadFailed ''sub/b.txt'' (BackendError ''slow down''))
   \<and> ''lnk'' \<in> set (uploaded (events (main (CHR ''/'') demo_config flaky_world)))
   \<and> tree after_flaky_world = tree flaky_world
   \<and> readFile after_flaky_world = disk (main (CHR ''/'') demo_config flaky_world)
   \<and> ListS3Files after_flaky_world (bucketName demo_config) = Inr [''a.txt'', ''lnk'']
   \<and> status (main (CHR ''/'') demo_config after_flaky_world) = Success
   \<and> ''lnk'' \<notin> set (attempted (events (main (CHR ''/'') demo_config after_flaky_world)))"
  using aborted_walk_disk [OF flaky_status]
  by (simp add: flaky_status flaky_events flaky_files after_flaky_listing after_flaky_status
      after_flaky_events)

text \<open>
  Claim C7, as amended. A failed upload ends the walk with that error and its key is not
  in the manifest. \<open>ioutil.WriteFile\<close> is called at most once in a run, and only when the
  walk has returned without error: a run that dies in the walk writes nothing and the
  files read as before, so the keys it uploaded are lost from the record. A later run
  never uploads a key that its listing of the bucket holds. A key the failed run tried
  (uploaded or not) is uploaded by a later run over the same tree and the files as the
  failed run left them, when that run's listing does not hold the key and its walk
  completes.
\<close>

theorem upload_failure_aborts:
  "(Upload p k b (Some e) \<in> set (events (main sep cfg w)) \<longrightarrow>
      status (main sep cfg w) = FatalWalk e)
   \<and> (Walk sep w root (walkFn sep w b d m) \<lparr>archived = a, trace = []\<rparr> = (r, st)
        \<and> Upload p k b (Some e) \<in> set (trace st)
      \<longrightarrow> r = Some e \<and> k \<notin> set (elems (Files (archived st))))
   \<and> (status (main sep cfg w) = FatalWalk e' \<longrightarrow>
        written (events (main sep cfg w)) = [] \<and> disk (main sep cfg w) = readFile w)
   \<and> length (written (events (main sep cfg w))) \<le> 1
   \<and> (written (events (main sep cfg w)) \<noteq> [] \<longrightarrow>
        status (main sep cfg w) = Success \<or> (\<exists>e. status (main sep cfg w) = FatalSave e))
   \<and> (ListS3Files w2 (bucketName cfg) = Inr ks2 \<and> k2 \<in> set ks2 \<longrightarrow>
        k2 \<notin> set (attempted (events (main sep cfg w2))))
   \<and> (status (main sep cfg w) = FatalWalk e'
        \<and> k2 \<in> set (attempted (events (main sep cfg w)))
        \<and> tree w2 (localDirectory cfg) = tree w (localDirectory cfg)
        \<and> readFile w2 = disk (main sep cfg w)
        \<and> ListS3Files w2 (bucketName cfg) = Inr ks2 \<and> k2 \<notin> set ks2
        \<and> (status (main sep cfg w2) = Success \<or> (\<exists>e2. status (main sep cfg w2) = FatalSave e2))
      \<longrightarrow> k2 \<in> set (attempted (events (main sep cfg w2)))
          \<and> k2 \<in> set (uploaded (events (main sep cfg w2))))"
proof (intro conjI impI)
  assume h: "Upload p k b (Some e) \<in> set (events (main sep cfg w))"
  show "status (main sep cfg w) = FatalWalk e"
  proof (cases rule: main_cases [of sep cfg w])
    case early
    with h show ?thesis by simp
  next
    case (aborted f a ks e1 st)
    with h have "Upload p k b (Some e) \<in> set (trace st)" by simp
    from Walk_failed_upload [OF aborted(7) this] aborted(8) show ?thesis by simp
  next
    case (saved f a ks st)
    with h have "Upload p k b (Some e) \<in> set (trace st)" by simp
    from Walk_failed_upload [OF saved(7) this] show ?thesis by simp
  qed
next
  assume "Walk sep w root (walkFn sep w b d m) \<lparr>archived = a, trace = []\<rparr> = (r, st)
        \<and> Upload p k b (Some e) \<in> set (trace st)"
  then show "r = Some e" and "k \<notin> set (elems (Files (archived st)))"
    using Walk_failed_upload [of sep w root b d m a r st p k b e] by simp_all
next
  assume h: "status (main sep cfg w) = FatalWalk e'"
  have both: "written (events (main sep cfg w)) = [] \<and> disk (main sep cfg w) = readFile w"
  proof (cases rule: main_cases [of sep cfg w])
    case early
    then show ?thesis by simp
  next
    case (aborted f a ks e1 st)
    with Walk_written [OF aborted(7)] show ?thesis by simp
  next
    case (saved f a ks st)
    with h show ?thesis by (simp split: option.splits)
  qed
  then show "written (events (main sep cfg w)) = []" and "disk (main sep cfg w) = readFile w"
    by simp_all
next
  show "length (written (events (main sep cfg w))) \<le> 1"
  proof (cases rule: main_cases [of sep cfg w])
    case early
    then show ?thesis by simp
  next
    case (aborted f a ks e1 st)
    with Walk_written [OF aborted(7)] show ?thesis by simp
  next
    case (saved f a ks st)
    with Walk_written [OF saved(7)] show ?thesis by simp
  qed
next
  assume h: "written (events (main sep cfg w)) \<noteq> []"
  show "status (main sep cfg w) = Success \<or> (\<exists>e. status (main sep cfg w) = FatalSave e)"
  proof (cases rule: main_cases [of sep cfg w])
    case early
    with h show ?thesis by simp
  next
    case (aborted f a ks e1 st)
    with Walk_written [OF aborted(7)] h show ?thesis by simp
  next
    case (saved f a ks st)
    then show ?thesis by (simp split: option.splits)
  qed
next
  assume "ListS3Files w2 (bucketName cfg) = Inr ks2 \<and> k2 \<in> set ks2"
  then show "k2 \<notin> set (attempted (events (main sep cfg w2)))"
    using main_uploads_not_listed by blast
next
  assume h: "status (main sep cfg w) = FatalWalk e'
        \<and> k2 \<in> set (attempted (events (main sep cfg w)))
        \<and> tree w2 (localDirectory cfg) = tree w (localDirectory cfg)
        \<and> readFile w2 = disk (main sep cfg w)
        \<and> ListS3Files w2 (bucketName cfg) = Inr ks2 \<and> k2 \<notin> set ks2
        \<and> (status (main sep cfg w2) = Success \<or> (\<exists>e2. status (main sep cfg w2) = FatalSave e2))"
  with aborted_walk_disk [of sep cfg w e'] have "readFile w2 = readFile w" by simp
  with h retried_after_abort [of sep cfg w e' k2 w2 ks2]
  have u: "k2 \<in> set (uploaded (events (main sep cfg w2)))" by blast
  then show "k2 \<in> set (uploaded (events (main sep cfg w2)))" .
  from u uploaded_attempted show "k2 \<in> set (attempted (events (main sep cfg w2)))" by blast
qed

theorem upload_failure_aborts_witness:
  "Upload ''data/sub/b.txt'' ''sub/b.txt'' ''bucket''
       (Some (UploadFailed ''sub/b.txt'' (BackendError ''slow down'')))
     \<in> set (events (main (CHR ''/'') demo_config flaky_world))
   \<and> status (main (CHR ''/'') demo_config flaky_world)
       = FatalWalk (UploadFailed ''sub/b.txt'' (BackendError ''slow down''))
   \<and> ''sub/b.txt'' \<notin> set [''lnk'']
   \<and> written (events (main (CHR ''/'') demo_config flaky_world)) = []
   \<and> disk (main (CHR ''/'') demo_config flaky_world) = readFile flaky_world
   \<and> written (events (main (CHR ''/'') demo_config demo_world)) \<noteq> []
   \<and> status (main (CHR ''/'') demo_config demo_world) = Success
   \<and> ListS3Files after_flaky_world (bucketName demo_config) = Inr [''a.txt'', ''lnk'']
   \<and> ''lnk'' \<notin> set (attempted (events (main (CHR ''/'') demo_config after_flaky_world)))
   \<and> ''lnk'' \<in> set (attempted (events (main (CHR ''/'') demo_config flaky_world)))
   \<and> tree demo_world (localDirectory demo_config) = tree flaky_world (localDirectory demo_config)
   \<and> readFile demo_world = disk (main (CHR ''/'') demo_config flaky_world)
   \<and> ListS3Files demo_world (bucketName demo_config) = Inr [''a.txt'']
   \<and> ''lnk'' \<in> set (attempted (events (main (CHR ''/'') demo_config demo_world)))
   \<and> ''lnk'' \<in> set (uploaded (events (main (CHR ''/'') demo_config demo_world)))"
proof -
  let ?e = "UploadFailed ''sub/b.txt'' (BackendError ''slow down'')"
  let ?st = "\<lparr>archived = \<lparr>Files = Some [''lnk'']\<rparr>,
       trace = [SkipInS3 ''a.txt'', Upload ''data/lnk'' ''lnk'' ''bucket'' None,
                Upload ''data/sub/b.txt'' ''sub/b.txt'' ''bucket'' (Some ?e)]\<rparr>"
  note t = upload_failure_aborts [of "''data/sub/b.txt''" "''sub/b.txt''" "''bucket''" ?e
      "CHR ''/''" demo_config flaky_world "''data''" "''data''"
      "s3FileMap_loop [''a.txt''] Map.empty" "\<lparr>Files = Some []\<rparr>" "Some ?e" ?st ?e]
  have ev: "Upload ''data/sub/b.txt'' ''sub/b.txt'' ''bucket'' (Some ?e)
     \<in> set (events (main (CHR ''/'') demo_config flaky_world))"
    by (simp add: flaky_events)
  from t ev have s: "status (main (CHR ''/'') demo_config flaky_world) = FatalWalk ?e" by blast
  from t flaky_walk have k: "''sub/b.txt'' \<notin> set [''lnk'']" by simp
  from t s have d: "written (events (main (CHR ''/'') demo_config flaky_world)) = []
      \<and> disk (main (CHR ''/'') demo_config flaky_world) = readFile flaky_world"
    by blast
  have w: "written (events (main (CHR ''/'') demo_config demo_world)) \<noteq> []"
    by (simp add: demo_events)
  from w upload_failure_aborts [where sep = "CHR ''/''" and cfg = demo_config and w = demo_world]
  have "status (main (CHR ''/'') demo_config demo_world) = Success
        \<or> (\<exists>e. status (main (CHR ''/'') demo_config demo_world) = FatalSave e)"
    by blast
  then have ok: "status (main (CHR ''/'') demo_config demo_world) = Success"
    by (simp add: demo_status)
  from after_flaky_listing
    upload_failure_aborts [where sep = "CHR ''/''" and cfg = demo_config
      and ?w2.0 = after_flaky_world and ?ks2.0 = "[''a.txt'', ''lnk'']" and ?k2.0 = "''lnk''"]
  have n: "''lnk'' \<notin> set (attempted (events (main (CHR ''/'') demo_config after_flaky_world)))"
    by simp
  have a: "''lnk'' \<in> set (attempted (events (main (CHR ''/'') demo_config flaky_world)))"
    by (simp add: flaky_events)
  from d have f: "tree demo_world (localDirectory demo_config)
        = tree flaky_world (localDirectory demo_config)"
    "readFile demo_world = disk (main (CHR ''/'') demo_config flaky_world)"
    by (simp_all add: flaky_files)
  have nl: "''lnk'' \<notin> set [''a.txt'']" by simp
  from s a f demo_listing nl ok
    upload_failure_aborts [where sep = "CHR ''/''" and cfg = demo_config and w = flaky_world
      and e' = ?e and ?w2.0 = demo_world and ?ks2.0 = "[''a.txt'']" and ?k2.0 = "''lnk''"]
  have r: "''lnk'' \<in> set (attempted (events (main (CHR ''/'') demo_config demo_world)))
      \<and> ''lnk'' \<in> set (uploaded (events (main (CHR ''/'') demo_config demo_world)))"
    by blast
  from ev s k d w ok after_flaky_listing n a f demo_listing r show ?thesis by blast
qed

subsection \<open>The default manifest path is not injective\<close>

text \<open>
  Against claim C8 as it stands: on Unix the distinct archive roots \<open>a/b\<close> and \<open>a_b\<close> have
  the same default manifest path.
\<close>

theorem manifest_path_collision_counterexample:
  "''a/b'' \<noteq> ''a_b''
   \<and> GenerateArchiveFilePath (CHR ''/'') ''archives'' ''a/b''
       = GenerateArchiveFilePath (CHR ''/'') ''archives'' ''a_b''"
  by (simp add: GenerateArchiveFilePath_unix)

text \<open>
  Claim C8, as amended. On Unix two archive roots have the same default manifest path
  under \<open>archives\<close> exactly when they are equal once every \<open>/\<close> is replaced by \<open>_\<close> and every
  \<open>:\<close> by \<open>-\<close>. In particular, distinct roots that contain neither \<open>_\<close> nor \<open>-\<close> have
  distinct manifest paths.
\<close>

theorem manifest_path_collisions:
  "(GenerateArchiveFilePath (CHR ''/'') ''archives'' r1
      = GenerateArchiveFilePath (CHR ''/'') ''archives'' r2)
   = (map (\<lambda>c. if c = CHR ''/'' then CHR ''_'' else if c = CHR '':'' then CHR ''-'' else c) r1
      = map (\<lambda>c. if c = CHR ''/'' then CHR ''_'' else if c = CHR '':'' then CHR ''-'' else c) r2)
   \<and> (CHR ''_'' \<notin> set r1 \<union> set r2 \<and> CHR ''-'' \<notin> set r1 \<union> set r2
        \<and> GenerateArchiveFilePath (CHR ''/'') ''archives'' r1
            = GenerateArchiveFilePath (CHR ''/'') ''archives'' r2
      \<longrightarrow> r1 = r2)"
proof (intro conjI impI)
  show "(GenerateArchiveFilePath (CHR ''/'') ''archives'' r1
      = GenerateArchiveFilePath (CHR ''/'') ''archives'' r2)
   = (map (\<lambda>c. if c = CHR ''/'' then CHR ''_'' else if c = CHR '':'' then CHR ''-'' else c) r1
      = map (\<lambda>c. if c = CHR ''/'' then CHR ''_'' else if c = CHR '':'' then CHR ''-'' else c) r2)"
    by (simp add: GenerateArchiveFilePath_unix)
next
  let ?f = "\<lambda>c. if c = CHR ''/'' then CHR ''_'' else if c = CHR '':'' then CHR ''-'' else c"
  assume h: "CHR ''_'' \<notin> set r1 \<union> set r2 \<and> CHR ''-'' \<notin> set r1 \<union> set r2
        \<and> GenerateArchiveFilePath (CHR ''/'') ''archives'' r1
            = GenerateArchiveFilePath (CHR ''/'') ''archives'' r2"
  then have eq: "map ?f r1 = map ?f r2" by (simp add: GenerateArchiveFilePath_unix)
  have inj: "inj_on ?f (set r1 \<union> set r2)"
    using h by (auto simp: inj_on_def split: if_splits)
  from inj_on_map_eq_map [OF inj] eq show "r1 = r2" by blast
qed

theorem manifest_path_collisions_witness:
  "GenerateArchiveFilePath (CHR ''/'') ''archives'' ''/srv/photos''
     \<noteq> GenerateArchiveFilePath (CHR ''/'') ''archives'' ''/srv/videos''
   \<and> CHR ''_'' \<notin> set ''/srv/photos'' \<union> set ''/srv/videos''
   \<and> CHR ''-'' \<notin> set ''/srv/photos'' \<union> set ''/srv/videos''
   \<and> GenerateArchiveFilePath (CHR ''/'') ''archives'' ''/srv/photos'' = ''archives/_srv_photos.json''"
proof -
  have a: "CHR ''_'' \<notin> set ''/srv/photos'' \<union> set ''/srv/videos''
    \<and> CHR ''-'' \<notin> set ''/srv/photos'' \<union> set ''/srv/videos''"
    by simp
  have b: "''/srv/photos'' \<noteq> ''/srv/videos''" by simp
  from manifest_path_collisions [of "''/srv/photos''" "''/srv/videos''"] a b
  have "GenerateArchiveFilePath (CHR ''/'') ''archives'' ''/srv/photos''
     \<noteq> GenerateArchiveFilePath (CHR ''/'') ''archives'' ''/srv/videos''"
    by blast
  moreover have "GenerateArchiveFilePath (CHR ''/'') ''archives'' ''/srv/photos'' = ''archives/_srv_photos.json''"
    by code_simp
  ultimately show ?thesis using a by blast
qed

subsection \<open>What the walk yields\<close>

text \<open>
  Against claim C9 as it stands: the walk callback only asks whether an entry is a
  directory, so the symbolic link \<open>lnk\<close> of the example tree is handed to \<open>UploadFile\<close>.
\<close>

theorem symlink_uploaded_counterexample:
  "tree demo_world ''data''
     = Dir [(''a.txt'', File Regular), (''lnk'', File Symlink),
            (''sub'', Dir [(''b.txt'', File Regular)])]
   \<and> \<not> IsRegular \<lparr>Mode = ModeFile Symlink\<rparr>
   \<and> Upload ''data/lnk'' ''lnk'' ''bucket'' None
        \<in> set (events (main (CHR ''/'') demo_config demo_world))"
  by (simp add: demo_events) (simp add: demo_world_def IsRegular_def)

text \<open>
  Claim C9, as amended. The walk hands every entry that is not a directory, of whatever
  kind (regular file, symbolic link, named pipe, socket, device), to the callback, which
  treats it as it treats a regular file; the callback does nothing for a directory. Every
  call of \<open>UploadFile\<close> in a run is for a non-directory entry of the tree, and a run whose
  walk completed has decided every non-directory entry of the tree: it skipped its key or
  uploaded it. An entry that cannot be examined and a directory that cannot be listed make
  the callback return that error; the error ends the walk (the entries after it are not
  visited) and the run, with the files unchanged.
\<close>

theorem walk_yields_non_directories:
  "(IsDir fi \<longrightarrow> walkFn sep w b d m path (Some fi) None st = (None, st))
   \<and> (\<not> IsDir fi \<longrightarrow>
        walkFn sep w b d m path (Some fi) None st
          = walkFn sep w b d m path (Some \<lparr>Mode = ModeFile Regular\<rparr>) None st)
   \<and> \<not> IsDir \<lparr>Mode = ModeFile kind\<rparr>
   \<and> walk sep (walkFn sep w b d m) path (File kind) st
       = walkFn sep w b d m path (Some \<lparr>Mode = ModeFile kind\<rparr>) None st
   \<and> (Upload p k b' r \<in> set (events (main sep cfg w)) \<longrightarrow>
        (\<exists>kind. entry_at sep (localDirectory cfg) (tree w (localDirectory cfg)) p (File kind)))
   \<and> ((status (main sep cfg w) = Success \<or> (\<exists>e. status (main sep cfg w) = FatalSave e))
        \<and> entry_at sep (localDirectory cfg) (tree w (localDirectory cfg)) p (File kind)
      \<longrightarrow> SkipInS3 (s3KeyOf sep (localDirectory cfg) p) \<in> set (events (main sep cfg w))
          \<or> SkipArchived (s3KeyOf sep (localDirectory cfg) p) \<in> set (events (main sep cfg w))
          \<or> Upload p (s3KeyOf sep (localDirectory cfg) p) (bucketName cfg) None
               \<in> set (events (main sep cfg w)))
   \<and> walk sep (walkFn sep w b d m) path (LstatFails e) st = (Some e, st)
   \<and> walk sep (walkFn sep w b d m) path (DirUnreadable e) st = (Some e, st)
   \<and> walk sep (walkFn sep w b d m) path (Dir names) st
       = walk_names sep (walkFn sep w b d m) path names st
   \<and> (walk_names sep (walkFn sep w b d m) path names st = (None, st1)
        \<and> walk sep (walkFn sep w b d m) (Join sep [path, name]) node st1 = (Some e, st2)
      \<longrightarrow> walk_names sep (walkFn sep w b d m) path (names @ (name, node) # rest) st
            = (Some e, st2))
   \<and> (bucketName cfg \<noteq> [] \<and> localDirectory cfg \<noteq> [] \<and> archivePath sep cfg w = Inr f
        \<and> loadDefaultConfig w (credFile cfg) (region cfg) = None
        \<and> LoadArchivedFiles w f = Inr a \<and> ListS3Files w (bucketName cfg) = Inr ks
        \<and> walk sep (walkFn sep w (bucketName cfg) (localDirectory cfg)
                      (s3FileMap_loop ks Map.empty))
             (localDirectory cfg) (tree w (localDirectory cfg)) \<lparr>archived = a, trace = []\<rparr>
            = (Some e, st2)
      \<longrightarrow> status (main sep cfg w) = FatalWalk e \<and> disk (main sep cfg w) = readFile w)"
proof (intro conjI impI)
  assume "IsDir fi"
  then show "walkFn sep w b d m path (Some fi) None st = (None, st)" by simp
next
  assume "\<not> IsDir fi"
  then show "walkFn sep w b d m path (Some fi) None st
          = walkFn sep w b d m path (Some \<lparr>Mode = ModeFile Regular\<rparr>) None st"
    by (simp add: walkFn_file IsDir_def)
next
  show "\<not> IsDir \<lparr>Mode = ModeFile kind\<rparr>" by (simp add: IsDir_def)
next
  show "walk sep (walkFn sep w b d m) path (File kind) st
       = walkFn sep w b d m path (Some \<lparr>Mode = ModeFile kind\<rparr>) None st"
    by simp
next
  assume h: "Upload p k b' r \<in> set (events (main sep cfg w))"
  let ?vs = "visits sep (localDirectory cfg) (tree w (localDirectory cfg))"
  have "\<exists>fi. (p, Some fi, None) \<in> set ?vs \<and> \<not> IsDir fi"
  proof (cases rule: main_cases [of sep cfg w])
    case early
    with h show ?thesis by simp
  next
    case (aborted f a ks e st)
    from aborted(7) have "run_visits (walkFn sep w (bucketName cfg) (localDirectory cfg)
        (s3FileMap_loop ks Map.empty)) ?vs \<lparr>archived = a, trace = []\<rparr> = (Some e, st)"
      by (simp add: Walk_run_visits)
    from uploads_are_visited_files [OF this] h aborted(8) show ?thesis by simp blast
  next
    case (saved f a ks st)
    from saved(7) have "run_visits (walkFn sep w (bucketName cfg) (localDirectory cfg)
        (s3FileMap_loop ks Map.empty)) ?vs \<lparr>archived = a, trace = []\<rparr> = (None, st)"
      by (simp add: Walk_run_visits)
    from uploads_are_visited_files [OF this] h saved(8) show ?thesis by simp blast
  qed
  then obtain fi where "(p, Some fi, None) \<in> set ?vs" "\<not> IsDir fi" by blast
  from visits_entry_at(1) [OF this]
  show "\<exists>kind. entry_at sep (localDirectory cfg) (tree w (localDirectory cfg)) p (File kind)"
    by blast
next
  assume h: "(status (main sep cfg w) = Success \<or> (\<exists>e. status (main sep cfg w) = FatalSave e))
        \<and> entry_at sep (localDirectory cfg) (tree w (localDirectory cfg)) p (File kind)"
  let ?vs = "visits sep (localDirectory cfg) (tree w (localDirectory cfg))"
  let ?key = "s3KeyOf sep (localDirectory cfg) p"
  from h entry_at_visits have v: "(p, Some \<lparr>Mode = ModeFile kind\<rparr>, None) \<in> set ?vs"
    by blast
  have nd: "\<not> IsDir \<lparr>Mode = ModeFile kind\<rparr>" by (simp add: IsDir_def)
  show "SkipInS3 ?key \<in> set (events (main sep cfg w))
          \<or> SkipArchived ?key \<in> set (events (main sep cfg w))
          \<or> Upload p ?key (bucketName cfg) None \<in> set (events (main sep cfg w))"
  proof (cases rule: main_cases [of sep cfg w])
    case early
    with h show ?thesis by auto
  next
    case (aborted f a ks e st)
    with h show ?thesis by auto
  next
    case (saved f a ks st)
    from saved(7) have "run_visits (walkFn sep w (bucketName cfg) (localDirectory cfg)
        (s3FileMap_loop ks Map.empty)) ?vs \<lparr>archived = a, trace = []\<rparr> = (None, st)"
      by (simp add: Walk_run_visits)
    from completed_walk_decides [OF this v nd] saved(8) show ?thesis by auto
  qed
next
  show "walk sep (walkFn sep w b d m) path (LstatFails e) st = (Some e, st)" by simp
next
  show "walk sep (walkFn sep w b d m) path (DirUnreadable e) st = (Some e, st)" by simp
next
  show "walk sep (walkFn sep w b d m) path (Dir names) st
       = walk_names sep (walkFn sep w b d m) path names st"
    by (simp add: dirInfo_def IsDir_def)
next
  assume "walk_names sep (walkFn sep w b d m) path names st = (None, st1)
        \<and> walk sep (walkFn sep w b d m) (Join sep [path, name]) node st1 = (Some e, st2)"
  then show "walk_names sep (walkFn sep w b d m) path (names @ (name, node) # rest) st
            = (Some e, st2)"
    by (simp add: walk_names_append)
next
  assume h: "bucketName cfg \<noteq> [] \<and> localDirectory cfg \<noteq> [] \<and> archivePath sep cfg w = Inr f
        \<and> loadDefaultConfig w (credFile cfg) (region cfg) = None
        \<and> LoadArchivedFiles w f = Inr a \<and> ListS3Files w (bucketName cfg) = Inr ks
        \<and> walk sep (walkFn sep w (bucketName cfg) (localDirectory cfg)
                      (s3FileMap_loop ks Map.empty))
             (localDirectory cfg) (tree w (localDirectory cfg)) \<lparr>archived = a, trace = []\<rparr>
            = (Some e, st2)"
  then show "status (main sep cfg w) = FatalWalk e" and "disk (main sep cfg w) = readFile w"
    by (simp_all add: main_def Walk_def)
qed

theorem walk_yields_non_directories_witness:
  "\<not> IsDir \<lparr>Mode = ModeFile Symlink\<rparr>
   \<and> walkFn (CHR ''/'') demo_world ''bucket'' ''data'' Map.empty ''data/lnk''
        (Some \<lparr>Mode = ModeFile Symlink\<rparr>) None \<lparr>archived = \<lparr>Files = None\<rparr>, trace = []\<rparr>
      = walkFn (CHR ''/'') demo_world ''bucket'' ''data'' Map.empty ''data/lnk''
        (Some \<lparr>Mode = ModeFile Regular\<rparr>) None \<lparr>archived = \<lparr>Files = None\<rparr>, trace = []\<rparr>
   \<and> IsDir dirInfo
   \<and> walkFn (CHR ''/'') demo_world ''bucket'' ''data'' Map.empty ''data/sub''
        (Some dirInfo) None \<lparr>archived = \<lparr>Files = None\<rparr>, trace = []\<rparr>
      = (None, \<lparr>archived = \<lparr>Files = None\<rparr>, trace = []\<rparr>)
   \<and> Upload ''data/tty'' ''tty'' ''bucket'' None
        \<in> set (events (main (CHR ''/'') demo_config device_world))
   \<and> (\<exists>kind. entry_at (CHR ''/'') (localDirectory demo_config)
                (tree device_world (localDirectory demo_config)) ''data/tty'' (File kind))
   \<and> status (main (CHR ''/'') demo_config device_world) = Success
   \<and> entry_at (CHR ''/'') (localDirectory demo_config)
        (tree device_world (localDirectory demo_config)) ''data/fifo'' (File NamedPipe)
   \<and> Upload ''data/fifo'' ''fifo'' ''bucket'' None
        \<in> set (events (main (CHR ''/'') demo_config device_world))
   \<and> status (main (CHR ''/'') demo_config broken_world) = FatalWalk ErrPermission
   \<and> disk (main (CHR ''/'') demo_config broken_world) = readFile broken_world"
proof -
  let ?st = "\<lparr>archived = \<lparr>Files = None\<rparr>, trace = []\<rparr>"
  let ?ev = "events (main (CHR ''/'') demo_config device_world)"
  have nd: "\<not> IsDir \<lparr>Mode = ModeFile Symlink\<rparr>" and d: "IsDir dirInfo"
    by (simp_all add: IsDir_def dirInfo_def)
  have ev: "Upload ''data/tty'' ''tty'' ''bucket'' None \<in> set ?ev"
    and ok: "status (main (CHR ''/'') demo_config device_world) = Success"
    by (simp_all add: device_events device_status)
  have j: "Join (CHR ''/'') [''data'', ''fifo''] = ''data/fifo''" by code_simp
  have "entry_at (CHR ''/'') ''data'' (Dir [(''fifo'', File NamedPipe), (''tty'', File CharDevice)])
          ''data/fifo'' (File NamedPipe)"
    by (rule entry_at.below [of "''fifo''" "File NamedPipe"]) (simp_all add: j entry_at.here)
  then have at: "entry_at (CHR ''/'') (localDirectory demo_config)
        (tree device_world (localDirectory demo_config)) ''data/fifo'' (File NamedPipe)"
    by (simp add: device_world_def demo_config_def)
  have key: "s3KeyOf (CHR ''/'') (localDirectory demo_config) ''data/fifo'' = ''fifo''"
    and bn: "bucketName demo_config = ''bucket''"
    by code_simp+
  from nd walk_yields_non_directories [where fi = "\<lparr>Mode = ModeFile Symlink\<rparr>" and sep = "CHR ''/''"
      and w = demo_world and b = "''bucket''" and d = "''data''" and m = Map.empty
      and path = "''data/lnk''" and st = ?st]
  have 1: "walkFn (CHR ''/'') demo_world ''bucket'' ''data'' Map.empty ''data/lnk''
        (Some \<lparr>Mode = ModeFile Symlink\<rparr>) None ?st
      = walkFn (CHR ''/'') demo_world ''bucket'' ''data'' Map.empty ''data/lnk''
        (Some \<lparr>Mode = ModeFile Regular\<rparr>) None ?st"
    by blast
  from d walk_yields_non_directories [where fi = dirInfo and sep = "CHR ''/''"
      and w = demo_world and b = "''bucket''" and d = "''data''" and m = Map.empty
      and path = "''data/sub''" and st = ?st]
  have 2: "walkFn (CHR ''/'') demo_world ''bucket'' ''data'' Map.empty ''data/sub''
        (Some dirInfo) None ?st = (None, ?st)"
    by blast
  from ev walk_yields_non_directories [where sep = "CHR ''/''" and w = device_world
      and cfg = demo_config and p = "''data/tty''" and k = "''tty''" and b' = "''bucket''"
      and r = None]
  have 3: "\<exists>kind. entry_at (CHR ''/'') (localDirectory demo_config)
                (tree device_world (localDirectory demo_config)) ''data/tty'' (File kind)"
    by blast
  from ok at walk_yields_non_directories [where sep = "CHR ''/''" and w = device_world
      and cfg = demo_config and p = "''data/fifo''" and kind = NamedPipe]
  have "SkipInS3 (s3KeyOf (CHR ''/'') (localDirectory demo_config) ''data/fifo'') \<in> set ?ev
      \<or> SkipArchived (s3KeyOf (CHR ''/'') (localDirectory demo_config) ''data/fifo'') \<in> set ?ev
      \<or> Upload ''data/fifo'' (s3KeyOf (CHR ''/'') (localDirectory demo_config) ''data/fifo'')
           (bucketName demo_config) None \<in> set ?ev"
    by blast
  then have 5: "Upload ''data/fifo'' ''fifo'' ''bucket'' None \<in> set ?ev"
    by (simp add: key bn device_events)
  from broken_walk broken_stages
    walk_yields_non_directories [where sep = "CHR ''/''" and w = broken_world
      and cfg = demo_config and f = "''archives/data.json''" and a = "\<lparr>Files = Some []\<rparr>"
      and ks = "[''a.txt'']" and e = ErrPermission
      and ?st2.0 = "\<lparr>archived = \<lparr>Files = Some []\<rparr>, trace = [SkipInS3 ''a.txt'']\<rparr>"]
  have 4: "status (main (CHR ''/'') demo_config broken_world) = FatalWalk ErrPermission
     \<and> disk (main (CHR ''/'') demo_config broken_world) = readFile broken_world"
    by blast
  from nd d ev ok at 1 2 3 4 5 show ?thesis by blast
qed

subsection \<open>Manifest files of another shape\<close>

text \<open>
  Against claim C10 as it stands: the JSON texts \<open>{"files": 5}\<close> and \<open>[]\<close> are
  well-formed, and \<open>LoadArchivedFiles\<close> rejects both.
\<close>

theorem only_syntax_errors_rejected_counterexample:
  "LoadArchivedFiles (demo_world\<lparr>readFile := (\<lambda>f. Inr typed_wrong)\<rparr>) ''archives/data.json''
     = Inl UnmarshalTypeError
   \<and> typed_wrong \<noteq> NotJSON
   \<and> LoadArchivedFiles (demo_world\<lparr>readFile := (\<lambda>f. Inr (JSONText (JArray [])))\<rparr>)
       ''archives/data.json'' = Inl UnmarshalTypeError"
  by (simp add: LoadArchivedFiles_def typed_wrong_def matchesFiles_examples)

text \<open>
  Claim C10, as amended. A manifest file that holds JSON null, or a JSON object in which
  every key matching \<open>files\<close> is null (none at all included), loads as a manifest with a
  nil key list and no error. The syntax error is returned for exactly the files that are
  not JSON. Well-formed JSON is rejected too, with a type error: a top-level value that is
  neither an object nor null, and an object in which some \<open>files\<close> value is neither null
  nor an array whose elements are strings or null; no other object is rejected. A null
  element is accepted: \<open>{"files": ["a", null]}\<close> loads as the keys \<open>a\<close> and the empty string.
\<close>

theorem LoadArchivedFiles_shapes:
  "(readFile w f = Inr (JSONText JNull) \<longrightarrow> LoadArchivedFiles w f = Inr \<lparr>Files = None\<rparr>)
   \<and> (readFile w f = Inr (JSONText (JObject ms))
        \<and> (\<forall>(k, v) \<in> set ms. matchesFiles k \<longrightarrow> v = JNull)
      \<longrightarrow> LoadArchivedFiles w f = Inr \<lparr>Files = None\<rparr>)
   \<and> (readFile w f = Inr d \<longrightarrow> (LoadArchivedFiles w f = Inl SyntaxError) = (d = NotJSON))
   \<and> (readFile w f = Inr (JSONText j) \<and> j \<noteq> JNull \<and> (\<forall>ms. j \<noteq> JObject ms)
      \<longrightarrow> LoadArchivedFiles w f = Inl UnmarshalTypeError)
   \<and> (readFile w f = Inr (JSONText (JObject ms)) \<longrightarrow>
        (\<exists>e. LoadArchivedFiles w f = Inl e)
          = (\<exists>(k, v) \<in> set ms. matchesFiles k \<and> \<not> fits_files v))
   \<and> (readFile w f = Inr (JSONText (JObject ms))
        \<and> (\<exists>(k, v) \<in> set ms. matchesFiles k \<and> \<not> fits_files v)
      \<longrightarrow> LoadArchivedFiles w f = Inl UnmarshalTypeError)
   \<and> (readFile w f = Inr (JSONText (JObject [(k, JArray js)])) \<and> matchesFiles k
        \<and> list_all string_or_null js
      \<longrightarrow> LoadArchivedFiles w f = Inr \<lparr>Files = Some (map element js)\<rparr>)"
proof (intro conjI impI)
  assume "readFile w f = Inr (JSONText JNull)"
  then show "LoadArchivedFiles w f = Inr \<lparr>Files = None\<rparr>"
    by (simp add: LoadArchivedFiles_def)
next
  assume "readFile w f = Inr (JSONText (JObject ms))
        \<and> (\<forall>(k, v) \<in> set ms. matchesFiles k \<longrightarrow> v = JNull)"
  then show "LoadArchivedFiles w f = Inr \<lparr>Files = None\<rparr>"
    by (simp add: LoadArchivedFiles_def decode_object_nulls)
next
  assume r: "readFile w f = Inr d"
  show "(LoadArchivedFiles w f = Inl SyntaxError) = (d = NotJSON)"
  proof (cases d)
    case NotJSON
    with r show ?thesis by (simp add: LoadArchivedFiles_def)
  next
    case (JSONText j)
    with r show ?thesis
      by (cases j) (simp_all add: LoadArchivedFiles_def split: option.splits)
  qed
next
  assume "readFile w f = Inr (JSONText j) \<and> j \<noteq> JNull \<and> (\<forall>ms. j \<noteq> JObject ms)"
  then show "LoadArchivedFiles w f = Inl UnmarshalTypeError"
    by (cases j) (simp_all add: LoadArchivedFiles_def)
next
  assume r: "readFile w f = Inr (JSONText (JObject ms))"
  show "(\<exists>e. LoadArchivedFiles w f = Inl e)
          = (\<exists>(k, v) \<in> set ms. matchesFiles k \<and> \<not> fits_files v)"
    using r decode_object_None [of "(None, [])" ms]
    by (auto simp: LoadArchivedFiles_def split: option.splits)
next
  assume "readFile w f = Inr (JSONText (JObject ms))
        \<and> (\<exists>(k, v) \<in> set ms. matchesFiles k \<and> \<not> fits_files v)"
  then show "LoadArchivedFiles w f = Inl UnmarshalTypeError"
    using decode_object_None [of "(None, [])" ms]
    by (auto simp: LoadArchivedFiles_def split: option.splits)
next
  assume h: "readFile w f = Inr (JSONText (JObject [(k, JArray js)])) \<and> matchesFiles k
        \<and> list_all string_or_null js"
  show "LoadArchivedFiles w f = Inr \<lparr>Files = Some (map element js)\<rparr>"
  proof (cases js)
    case Nil
    with h show ?thesis by (simp add: LoadArchivedFiles_def)
  next
    case (Cons x xs)
    with h decode_array_fresh [of js] show ?thesis
      by (simp add: LoadArchivedFiles_def del: decode_array.simps)
  qed
qed

theorem LoadArchivedFiles_shapes_witness:
  "LoadArchivedFiles (demo_world\<lparr>readFile := (\<lambda>f. Inr (JSONText JNull))\<rparr>) ''m.json''
     = Inr \<lparr>Files = None\<rparr>
   \<and> LoadArchivedFiles
       (demo_world\<lparr>readFile := (\<lambda>f. Inr (JSONText (JObject [(''note'', JBool True), (''Files'', JNull)])))\<rparr>)
       ''m.json'' = Inr \<lparr>Files = None\<rparr>
   \<and> LoadArchivedFiles (demo_world\<lparr>readFile := (\<lambda>f. Inr NotJSON)\<rparr>) ''m.json'' = Inl SyntaxError
   \<and> LoadArchivedFiles (demo_world\<lparr>readFile := (\<lambda>f. Inr (JSONText (JArray [])))\<rparr>) ''m.json''
       = Inl UnmarshalTypeError
   \<and> LoadArchivedFiles (demo_world\<lparr>readFile := (\<lambda>f. Inr typed_wrong)\<rparr>) ''m.json''
       = Inl UnmarshalTypeError
   \<and> LoadArchivedFiles
       (demo_world\<lparr>readFile := (\<lambda>f. Inr (JSONText (JObject [(''files'', JArray [JString ''a'', JNumber ''1''])])))\<rparr>)
       ''m.json'' = Inl UnmarshalTypeError
   \<and> LoadArchivedFiles
       (demo_world\<lparr>readFile := (\<lambda>f. Inr (JSONText (JObject [(''files'', JArray [JString ''a'', JNull])])))\<rparr>)
       ''m.json'' = Inr \<lparr>Files = Some [''a'', []]\<rparr>"
proof -
  note m1 = matchesFiles_examples(1) and m2 = matchesFiles_examples(2)
    and m3 = matchesFiles_examples(3)
  let ?w1 = "demo_world\<lparr>readFile := (\<lambda>f. Inr (JSONText JNull))\<rparr>"
  let ?o2 = "[(''note'', JBool True), (''Files'', JNull)]"
  let ?w2 = "demo_world\<lparr>readFile := (\<lambda>f. Inr (JSONText (JObject ?o2)))\<rparr>"
  let ?w3 = "demo_world\<lparr>readFile := (\<lambda>f. Inr NotJSON)\<rparr>"
  let ?w4 = "demo_world\<lparr>readFile := (\<lambda>f. Inr (JSONText (JArray [])))\<rparr>"
  let ?w5 = "demo_world\<lparr>readFile := (\<lambda>f. Inr typed_wrong)\<rparr>"
  let ?o6 = "[(''files'', JArray [JString ''a'', JNumber ''1''])]"
  let ?w6 = "demo_world\<lparr>readFile := (\<lambda>f. Inr (JSONText (JObject ?o6)))\<rparr>"
  let ?j7 = "[JString ''a'', JNull]"
  let ?w7 = "demo_world\<lparr>readFile := (\<lambda>f. Inr (JSONText (JObject [(''files'', JArray ?j7)])))\<rparr>"
  have 1: "LoadArchivedFiles ?w1 ''m.json'' = Inr \<lparr>Files = None\<rparr>"
    using LoadArchivedFiles_shapes [of ?w1 "''m.json''"] by simp
  have 2: "LoadArchivedFiles ?w2 ''m.json'' = Inr \<lparr>Files = None\<rparr>"
    using LoadArchivedFiles_shapes [of ?w2 "''m.json''" ?o2] m2 m3 by simp
  have 3: "LoadArchivedFiles ?w3 ''m.json'' = Inl SyntaxError"
    using LoadArchivedFiles_shapes [of ?w3 "''m.json''" _ NotJSON] by simp
  have 4: "LoadArchivedFiles ?w4 ''m.json'' = Inl UnmarshalTypeError"
    using LoadArchivedFiles_shapes [of ?w4 "''m.json''" _ _ "JArray []"] by simp
  have 5: "LoadArchivedFiles ?w5 ''m.json'' = Inl UnmarshalTypeError"
    using LoadArchivedFiles_shapes [of ?w5 "''m.json''" "[(''files'', JNumber ''5'')]"] m1
    by (simp add: typed_wrong_def)
  have 6: "LoadArchivedFiles ?w6 ''m.json'' = Inl UnmarshalTypeError"
    using LoadArchivedFiles_shapes [of ?w6 "''m.json''" ?o6] m1 by simp
  have e: "map element ?j7 = [''a'', []]" by code_simp
  have 7: "LoadArchivedFiles ?w7 ''m.json'' = Inr \<lparr>Files = Some [''a'', []]\<rparr>"
    using LoadArchivedFiles_shapes [where w = ?w7 and f = "''m.json''" and k = "''files''"
        and js = ?j7] m1 e
    by simp
  from 1 2 3 4 5 6 7 show ?thesis by blast
qed

end
